theory Spec2Isabelle
  imports Main "HOL-Library.Multiset" "HOL-Library.AList"
begin

chapter \<open>The Amagaki builder (src/builder.ts)\<close>

section \<open>Output paths\<close>

subsection \<open>JavaScript string helpers\<close>

text \<open>
  \<^verbatim>\<open>String.prototype.endsWith\<close>: the receiver's last characters are the argument.
\<close>

definition endsWith :: "string \<Rightarrow> string \<Rightarrow> bool" where
  "endsWith s t = (length t \<le> length s \<and> drop (length s - length t) s = t)"

text \<open>\<^verbatim>\<open>String.prototype.slice\<close> with two indices inside the string.\<close>

definition slice :: "string \<Rightarrow> int \<Rightarrow> int \<Rightarrow> string" where
  "slice s a b = take (nat (b - a)) (drop (nat a) s)"

subsection \<open>\<^verbatim>\<open>path.extname\<close> of Node.js (POSIX flavour)\<close>

text \<open>
  \<^verbatim>\<open>normalizePath\<close> asks the standard library whether the path has an extension.
  The library function scans the path from its last character to its first, with five
  variables; the record keeps their names (\<^verbatim>\<open>end\<close> is written \<open>endIdx\<close>).
\<close>

record extnameState =
  startDot :: int
  startPart :: int
  endIdx :: int
  matchedSlash :: bool
  preDotState :: int

text \<open>
  The first character from the right that is not a separator is the end of the extension:
  \<^verbatim>\<open>if (end === -1) { matchedSlash = false; end = i + 1; }\<close>
\<close>

definition markEnd :: "int \<Rightarrow> extnameState \<Rightarrow> extnameState" where
  "markEnd i s = (if endIdx s = -1 then s\<lparr>matchedSlash := False, endIdx := i + 1\<rparr> else s)"

text \<open>
  \<^verbatim>\<open>
  if (code === CHAR_DOT) {
    if (startDot === -1) startDot = i;
    else if (preDotState !== 1) preDotState = 1;
  } else if (startDot !== -1) {
    preDotState = -1;
  }
  \<close>
\<close>

definition trackDot :: "char \<Rightarrow> int \<Rightarrow> extnameState \<Rightarrow> extnameState" where
  "trackDot c i s =
     (if c = CHR ''.'' then
        (if startDot s = -1 then s\<lparr>startDot := i\<rparr>
         else if preDotState s \<noteq> 1 then s\<lparr>preDotState := 1\<rparr>
         else s)
      else if startDot s \<noteq> -1 then s\<lparr>preDotState := -1\<rparr>
      else s)"

text \<open>
  The loop \<^verbatim>\<open>for (let i = path.length - 1; i >= 0; --i)\<close>. The first argument is
  the part of the path not yet visited, last character first, so the index \<open>i\<close> of the
  character at its head is the length of its tail. A separator after the last component
  has begun ends the loop (\<^verbatim>\<open>break\<close>); a trailing separator is skipped
  (\<^verbatim>\<open>continue\<close>).
\<close>

fun extnameLoop :: "char list \<Rightarrow> extnameState \<Rightarrow> extnameState" where
  "extnameLoop [] s = s"
| "extnameLoop (c # pre) s =
    (if c = CHR ''/'' then
       (if \<not> matchedSlash s then s\<lparr>startPart := int (length pre) + 1\<rparr>
        else extnameLoop pre s)
     else extnameLoop pre (trackDot c (int (length pre)) (markEnd (int (length pre)) s)))"

definition extname :: "string \<Rightarrow> string" where
  "extname p =
    (let s = extnameLoop (rev p)
               \<lparr>startDot = -1, startPart = 0, endIdx = -1, matchedSlash = True, preDotState = 0\<rparr>
     in if startDot s = -1 \<or> endIdx s = -1 \<or> preDotState s = 0 \<or>
           (preDotState s = 1 \<and> startDot s = endIdx s - 1 \<and> startDot s = startPart s + 1)
        then '''' else slice p (startDot s) (endIdx s))"

subsection \<open>\<^verbatim>\<open>Builder.normalizePath\<close>\<close>

text \<open>
  \<^verbatim>\<open>
  static normalizePath(path: string) {
    if (path.endsWith('/')) {
      return `${path}index.html`;
    }
    return fsPath.extname(path) ? path : `${path}/index.html`;
  }
  \<close>
  A string is truthy when it is not empty.
\<close>

definition normalizePath :: "string \<Rightarrow> string" where
  "normalizePath p =
     (if endsWith p ''/'' then p @ ''index.html''
      else if extname p \<noteq> '''' then p
      else p @ ''/index.html'')"


section \<open>Manifests and their diff\<close>

subsection \<open>Data\<close>

record podPathSha =
  path :: string
  sha :: string

record commitAuthor =
  name :: string
  email :: string

record commit =
  commitSha :: string
  author :: commitAuthor
  message :: string

record buildManifest =
  branch :: "string option"
  built :: string
  commit :: "commit option"
  files :: "podPathSha list"

record buildDiffPaths =
  adds :: "string list"
  edits :: "string list"
  noChanges :: "string list"
  deletes :: "string list"

record exportOptions =
  patterns :: "string list option"

text \<open>
  \<^verbatim>\<open>options?.patterns\<close> as a condition: \<open>options\<close> may be missing and so may its
  field; an array, also the empty one, is truthy.
\<close>

definition patternsGiven :: "exportOptions option \<Rightarrow> bool" where
  "patternsGiven options = (case options of None \<Rightarrow> False | Some opts \<Rightarrow> patterns opts \<noteq> None)"

subsection \<open>Object literals used as dictionaries\<close>

text \<open>
  Both lookups are object literals, \<^verbatim>\<open>const existingPathShas: Record<string, string> = {}\<close>,
  queried with \<^verbatim>\<open>in\<close>. An object literal inherits from \<^verbatim>\<open>Object.prototype\<close>, and \<^verbatim>\<open>in\<close>
  also finds inherited properties. The own properties are a map; the inherited names are
  those of \<^verbatim>\<open>Object.prototype\<close>.
\<close>

type_synonym jsRecord = "string \<rightharpoonup> string"

definition objectPrototypeKeys :: "string list" where
  "objectPrototypeKeys =
     [''constructor'', ''__defineGetter__'', ''__defineSetter__'', ''hasOwnProperty'',
      ''__lookupGetter__'', ''__lookupSetter__'', ''isPrototypeOf'', ''propertyIsEnumerable'',
      ''toString'', ''valueOf'', ''__proto__'', ''toLocaleString'']"

datatype jsValue = JSString string | JSInherited | JSUndefined

text \<open>
  \<^verbatim>\<open>obj[k] = v\<close> creates or overwrites an own property, except for \<^verbatim>\<open>__proto__\<close>: that
  name is an accessor of the prototype whose setter ignores a string.
\<close>

definition setProperty :: "jsRecord \<Rightarrow> string \<Rightarrow> string \<Rightarrow> jsRecord" where
  "setProperty obj k v = (if k = ''__proto__'' then obj else obj(k \<mapsto> v))"

text \<open>\<^verbatim>\<open>k in obj\<close>\<close>

definition hasProperty :: "string \<Rightarrow> jsRecord \<Rightarrow> bool" where
  "hasProperty k obj = (obj k \<noteq> None \<or> k \<in> set objectPrototypeKeys)"

text \<open>\<^verbatim>\<open>obj[k]\<close>: the own string, else what the prototype holds (never a string).\<close>

definition getProperty :: "jsRecord \<Rightarrow> string \<Rightarrow> jsValue" where
  "getProperty obj k =
     (case obj k of
        Some v \<Rightarrow> JSString v
      | None \<Rightarrow> if k \<in> set objectPrototypeKeys then JSInherited else JSUndefined)"

subsection \<open>\<^verbatim>\<open>Builder.cleanOutputUsingManifests\<close>\<close>

definition emptyDiff :: buildDiffPaths where
  "emptyDiff = \<lparr>adds = [], edits = [], noChanges = [], deletes = []\<rparr>"

text \<open>
  \<^verbatim>\<open>
  manifest.files.forEach(pathSha => { pathShas[pathSha.path] = pathSha.sha; });
  \<close>
\<close>

definition indexFiles :: "podPathSha list \<Rightarrow> jsRecord" where
  "indexFiles fs = foldl (\<lambda>obj pathSha. setProperty obj (path pathSha) (sha pathSha)) Map.empty fs"

text \<open>
  The body of the loop over the new manifest's files:
  \<^verbatim>\<open>
  if (newPathSha.path in existingPathShas) {
    if (newPathSha.sha === existingPathShas[newPathSha.path]) {
      buildDiffPaths.noChanges.push(newPathSha.path);
    } else {
      buildDiffPaths.edits.push(newPathSha.path);
    }
  } else {
    buildDiffPaths.adds.push(newPathSha.path);
  }
  \<close>
\<close>

definition classify :: "jsRecord \<Rightarrow> buildDiffPaths \<Rightarrow> podPathSha \<Rightarrow> buildDiffPaths" where
  "classify existingPathShas d newPathSha =
     (if hasProperty (path newPathSha) existingPathShas then
        (if JSString (sha newPathSha) = getProperty existingPathShas (path newPathSha)
         then d\<lparr>noChanges := noChanges d @ [path newPathSha]\<rparr>
         else d\<lparr>edits := edits d @ [path newPathSha]\<rparr>)
      else d\<lparr>adds := adds d @ [path newPathSha]\<rparr>)"

text \<open>
  The body of the loop over the existing manifest's files:
  \<^verbatim>\<open>
  if (!(pathSha.path in newPathShas)) { buildDiffPaths.deletes.push(pathSha.path); }
  \<close>
\<close>

definition collectDelete :: "jsRecord \<Rightarrow> buildDiffPaths \<Rightarrow> podPathSha \<Rightarrow> buildDiffPaths" where
  "collectDelete newPathShas d pathSha =
     (if \<not> hasProperty (path pathSha) newPathShas
      then d\<lparr>deletes := deletes d @ [path pathSha]\<rparr>
      else d)"

definition cleanOutputUsingManifests ::
  "buildManifest option \<Rightarrow> buildManifest \<Rightarrow> exportOptions option \<Rightarrow> buildDiffPaths" where
  "cleanOutputUsingManifests existingManifest newManifest options =
     (case existingManifest of
        None \<Rightarrow> emptyDiff\<lparr>adds := map path (files newManifest)\<rparr>
      | Some existing \<Rightarrow>
          (let existingPathShas = indexFiles (files existing);
               d = foldl (classify existingPathShas) emptyDiff (files newManifest);
               newPathShas = indexFiles (files newManifest)
           in if \<not> patternsGiven options
              then foldl (collectDelete newPathShas) d (files existing)
              else d))"

text \<open>The output paths a manifest lists, in its order.\<close>

definition manifestPaths :: "buildManifest \<Rightarrow> string list" where
  "manifestPaths m = map path (files m)"

subsection \<open>Example manifests\<close>

definition manifestOf :: "(string \<times> string) list \<Rightarrow> buildManifest" where
  "manifestOf entries =
     \<lparr>branch = None, built = ''Mon Nov 02 2026'', commit = None,
      files = map (\<lambda>(p, h). \<lparr>path = p, sha = h\<rparr>) entries\<rparr>"

definition previousManifest :: buildManifest where
  "previousManifest =
     manifestOf [(''/index.html'', ''aa''), (''/about/index.html'', ''bb''),
                 (''/old/index.html'', ''cc'')]"

definition nextManifest :: buildManifest where
  "nextManifest =
     manifestOf [(''/index.html'', ''aa''), (''/about/index.html'', ''b2''),
                 (''/blog/index.html'', ''dd'')]"

definition incrementalOptions :: "exportOptions option" where
  "incrementalOptions = Some \<lparr>patterns = Some [''/content/blog/**'']\<rparr>"


section \<open>The export\<close>

subsection \<open>Errors\<close>

text \<open>
  What a \<^verbatim>\<open>throw\<close> or a rejected promise carries. The builder looks at two fields of a
  file-system error: \<^verbatim>\<open>err.errno\<close> and \<^verbatim>\<open>err.code\<close>.
\<close>

datatype error = Error string | SystemError int string

fun errno :: "error \<Rightarrow> int option" where
  "errno (Error m) = None"
| "errno (SystemError n c) = Some n"

fun errorCode :: "error \<Rightarrow> string option" where
  "errorCode (Error m) = None"
| "errorCode (SystemError n c) = Some c"

definition ENOENT :: error where "ENOENT = SystemError (-2) ''ENOENT''"
definition EACCES :: error where "EACCES = SystemError (-13) ''EACCES''"
definition EXDEV :: error where "EXDEV = SystemError (-18) ''EXDEV''"

subsection \<open>Data\<close>

record route =
  podPath :: "string option"
  urlPath :: string
  url :: string
  providerType :: string
  staticFilePodPath :: string

record artifact =
  tempPath :: string
  realPath :: string

record createdPath = artifact +
  route :: route
  normalPath :: string

record buildMetrics =
  memoryUsage :: nat
  localesToNumMissingTranslations :: "(string \<times> nat) list"
  numMissingTranslations :: nat
  numDocumentRoutes :: nat
  numStaticRoutes :: nat
  outputSizeDocuments :: nat
  outputSizeStaticFiles :: nat

record buildResult =
  metrics :: buildMetrics
  manifest :: buildManifest
  diff :: buildDiffPaths

record podLocale =
  localeId :: string
  isDefaultLocale :: bool
  recordedStrings :: nat

subsection \<open>Effects\<close>

text \<open>
  What the export does to the world and to its own shared collections, in the order it
  does it. \<open>Invoke\<close> marks the call of a runner's iteratee on the item of that index, and
  \<open>ShaComputed\<close> the moment \<^verbatim>\<open>getFileSha\<close> resolves; the others are calls the source makes.
\<close>

datatype event =
    TriggerHook string
  | ReadManifest string
  | MakeTempDir string
  | ListRoutes
  | BarStart nat nat
  | BarIncrement
  | BarStop
  | Invoke nat
  | EnsureDirectoryExists string
  | CopyFile string string
  | TimerStart string
  | TimerStop string
  | RouteBuild string
  | WriteFile string string
  | ArtifactsPush artifact
  | MoveBarStart nat
  | MoveBarIncrement
  | MoveBarStop
  | GetFileSha string
  | ShaComputed string string
  | ManifestFilesPush podPathSha
  | Stat string
  | MetricsAdd string nat
  | Rename string string
  | DeleteDirectoryRecursive string
  | WriteManifest string buildManifest
  | WriteMetrics string buildMetrics
  | Unlink string
  | ConsoleWarn string
  | ExistsSync string
  | Readdir string
  | Rmdir string
  | LogResult buildDiffPaths buildMetrics

subsection \<open>\<^verbatim>\<open>async.eachLimit\<close> and \<^verbatim>\<open>async.mapLimit\<close>\<close>

text \<open>
  Both runners call an \<^verbatim>\<open>async\<close> function on every item, at most \<open>limit\<close> calls in flight.
  Such a call runs until its first \<^verbatim>\<open>await\<close>, and later, each time the awaited promise
  settles, until the next one; JavaScript runs one such stretch at a time. A task is the
  call on one item: \<open>start\<close> is what it does when called, \<open>resumes\<close> what it does on each
  later resumption, \<open>outcome\<close> the error it finally rejects with, if any. All three follow
  from the item and from the outcomes of the requests the call makes.
\<close>

record task =
  start :: "event list"
  resumes :: "event list list"
  outcome :: "error option"

text \<open>
  The runner's state: the items not yet handed out, the calls in flight (what each still
  has to do, and its outcome), the error passed to the final callback, and what has
  happened so far.
\<close>

record pool =
  queue :: "task list"
  running :: "(event list list \<times> error option) list"
  firstError :: "error option"
  trace :: "event list"

text \<open>
  \<^verbatim>\<open>replenish\<close>: while fewer than \<open>limit\<close> calls are in flight, hand out the next item.
\<close>

fun replenish :: "nat \<Rightarrow> task list \<Rightarrow> (event list list \<times> error option) list \<Rightarrow> event list \<Rightarrow>
    task list \<times> (event list list \<times> error option) list \<times> event list" where
  "replenish limit [] run tr = ([], run, tr)"
| "replenish limit (t # q) run tr =
     (if length run < limit
      then replenish limit q (run @ [(resumes t, outcome t)]) (tr @ start t)
      else (t # q, run, tr))"

definition replenishPool :: "nat \<Rightarrow> pool \<Rightarrow> pool" where
  "replenishPool limit p =
     (case replenish limit (queue p) (running p) (trace p) of
        (q, run, tr) \<Rightarrow> p\<lparr>queue := q, running := run, trace := tr\<rparr>)"

text \<open>
  The call in flight at position \<open>i\<close> is resumed. If something is left to do it does the
  next stretch. Otherwise it settles and the runner's callback sees its outcome: the first
  error is kept and passed on (\<^verbatim>\<open>done = true; callback(err)\<close>), after which no item is
  handed out any more; a success, with no error so far, makes room for the next item.
\<close>

definition advance :: "nat \<Rightarrow> nat \<Rightarrow> pool \<Rightarrow> pool" where
  "advance limit i p =
     (case running p ! i of
        (seg # rest, out) \<Rightarrow> p\<lparr>running := (running p)[i := (rest, out)], trace := trace p @ seg\<rparr>
      | ([], out) \<Rightarrow>
          (let p' = p\<lparr>running := take i (running p) @ drop (Suc i) (running p)\<rparr>
           in case firstError p of
                Some e \<Rightarrow> p'
              | None \<Rightarrow> (case out of
                           Some e \<Rightarrow> p'\<lparr>firstError := Some e\<rparr>
                         | None \<Rightarrow> replenishPool limit p')))"

text \<open>
  Which call is resumed next is for the event loop to decide: the schedule lists its
  choices, each read modulo the number of calls in flight, and once the list is used up
  the first call in flight is taken. The run ends when no call is in flight.
\<close>

definition weight :: "pool \<Rightarrow> nat" where
  "weight p = sum_list (map (\<lambda>r. Suc (length (fst r))) (running p)) +
              sum_list (map (\<lambda>t. Suc (length (resumes t))) (queue p))"

lemma weight_replenish:
  "replenish limit q run tr = (q', run', tr') \<Longrightarrow>
   sum_list (map (\<lambda>r. Suc (length (fst r))) run') + sum_list (map (\<lambda>t. Suc (length (resumes t))) q') =
   sum_list (map (\<lambda>r. Suc (length (fst r))) run) + sum_list (map (\<lambda>t. Suc (length (resumes t))) q)"
  by (induction limit q run tr rule: replenish.induct) (auto split: if_splits)

lemma weight_replenishPool: "weight (replenishPool limit p) = weight p"
proof -
  obtain q run tr where r: "replenish limit (queue p) (running p) (trace p) = (q, run, tr)"
    by (cases "replenish limit (queue p) (running p) (trace p)")
  from weight_replenish [OF r] r show ?thesis
    by (simp add: weight_def replenishPool_def)
qed

lemma sum_list_update_less:
  fixes f :: "'a \<Rightarrow> nat"
  assumes "i < length xs" and "f y < f (xs ! i)"
  shows "sum_list (map f (xs[i := y])) < sum_list (map f xs)"
proof -
  have xs: "xs = take i xs @ xs ! i # drop (Suc i) xs"
    using assms(1) by (simp add: id_take_nth_drop)
  have "xs[i := y] = take i xs @ y # drop (Suc i) xs"
    using assms(1) by (simp add: upd_conv_take_nth_drop)
  then have "sum_list (map f (xs[i := y])) =
             sum_list (map f (take i xs)) + f y + sum_list (map f (drop (Suc i) xs))"
    by simp
  moreover have "sum_list (map f xs) =
             sum_list (map f (take i xs)) + f (xs ! i) + sum_list (map f (drop (Suc i) xs))"
    by (subst xs) simp
  ultimately show ?thesis
    using assms(2) by simp
qed

lemma sum_list_remove_less:
  fixes f :: "'a \<Rightarrow> nat"
  assumes "i < length xs" and "0 < f (xs ! i)"
  shows "sum_list (map f (take i xs @ drop (Suc i) xs)) < sum_list (map f xs)"
proof -
  have xs: "xs = take i xs @ xs ! i # drop (Suc i) xs"
    using assms(1) by (simp add: id_take_nth_drop)
  have "sum_list (map f xs) =
             sum_list (map f (take i xs)) + f (xs ! i) + sum_list (map f (drop (Suc i) xs))"
    by (subst xs) simp
  then show ?thesis
    using assms(2) by simp
qed

lemma weight_advance:
  assumes "i < length (running p)"
  shows "weight (advance limit i p) < weight p"
proof (cases "running p ! i")
  case (Pair segs out)
  show ?thesis
  proof (cases segs)
    case Nil
    let ?p' = "p\<lparr>running := take i (running p) @ drop (Suc i) (running p)\<rparr>"
    have less: "weight ?p' < weight p"
      using sum_list_remove_less [OF assms, of "\<lambda>r. Suc (length (fst r))"]
      by (simp add: weight_def)
    have same: "weight (?p'\<lparr>firstError := Some e\<rparr>) = weight ?p'" for e
      by (simp add: weight_def)
    show ?thesis
      using Pair Nil less same weight_replenishPool [of limit ?p']
      by (simp add: advance_def Let_def split: option.splits)
  next
    case (Cons seg rest)
    with Pair assms
    have "sum_list (map (\<lambda>r. Suc (length (fst r))) ((running p)[i := (rest, out)]))
          < sum_list (map (\<lambda>r. Suc (length (fst r))) (running p))"
      by (intro sum_list_update_less) simp_all
    with Pair Cons show ?thesis
      by (simp add: advance_def weight_def)
  qed
qed

function runPool :: "nat \<Rightarrow> nat list \<Rightarrow> pool \<Rightarrow> pool" where
  "runPool limit sched p =
     (if running p = [] then p
      else case sched of
             [] \<Rightarrow> runPool limit [] (advance limit 0 p)
           | k # ks \<Rightarrow> runPool limit ks (advance limit (k mod length (running p)) p))"
  by pat_completeness auto
termination
  by (relation "measure (\<lambda>(limit, sched, p). weight p)") (auto intro: weight_advance)

declare runPool.simps [simp del]

text \<open>The whole run on a list of tasks: what happened, and the error if there was one.\<close>

definition runLimit :: "nat \<Rightarrow> nat list \<Rightarrow> task list \<Rightarrow> pool" where
  "runLimit limit sched tasks =
     runPool limit sched
       (replenishPool limit \<lparr>queue = tasks, running = [], firstError = None, trace = []\<rparr>)"


subsection \<open>The world the export runs in\<close>

text \<open>
  The export reads and writes files, calls routes and plugins and waits for all of them.
  The world says how each of these requests ends. The requests of the runner calls are
  listed per item (its index in \<^verbatim>\<open>createdPaths\<close>), those of the stale-file cleanup per
  position in the list of deletes: every call and every position makes each request at
  most once, so such a table can describe any run.
\<close>

record stagingIO =
  mkdirTemp :: "error option"
  copied :: "error option"
  rendered :: "error + string"
  written :: "error option"

record movingIO =
  shaOutcome :: "error + string"
  statOutcome :: "error + nat"
  mkdirOutcome :: "error option"
  renameOutcome :: "error option"
  copyOutcome :: "error option"

record deleteIO =
  unlinkOutcome :: "error option"
  existsOutcome :: bool
  readdirOutcome :: "error + string list"
  rmdirOutcome :: "error option"

text \<open>
  What the builder asks of its pod: \<^verbatim>\<open>pod.root\<close>, \<^verbatim>\<open>pod.getAbsoluteFilePath\<close>, the manifest
  that \<^verbatim>\<open>getExistingManifest\<close> reads through \<^verbatim>\<open>pod.fileExists\<close> and \<^verbatim>\<open>pod.readFile\<close>,
  \<^verbatim>\<open>pod.router.routes()\<close>, \<^verbatim>\<open>pod.cache.locales\<close> and the two hooks of \<^verbatim>\<open>pod.plugins\<close>.
\<close>

record pod =
  podRoot :: string
  getAbsoluteFilePath :: "string \<Rightarrow> string"
  existingManifest :: "buildManifest option"
  routes :: "route list"
  locales :: "podLocale list"
  beforeBuild :: "error option"
  afterBuild :: "buildResult \<Rightarrow> error option"

text \<open>
  Library functions and readings of the process: \<^verbatim>\<open>fsPath.join\<close>, \<^verbatim>\<open>fsPath.dirname\<close>,
  \<^verbatim>\<open>minimatch\<close> with \<^verbatim>\<open>{matchBase: true}\<close>, \<^verbatim>\<open>new Date().toString()\<close>, the directory
  \<^verbatim>\<open>fs.mkdtempSync\<close> creates and \<^verbatim>\<open>process.memoryUsage().heapUsed\<close>.
\<close>

record platform =
  joinPath :: "string list \<Rightarrow> string"
  dirname :: "string \<Rightarrow> string"
  minimatch :: "string \<Rightarrow> string \<Rightarrow> bool"
  now :: string
  tempDirRoot :: string
  heapUsed :: nat

text \<open>The schedules are the event loop's choices in the two runners.\<close>

record world =
  pod :: pod
  platform :: platform
  staging :: "nat \<Rightarrow> stagingIO"
  stagingSchedule :: "nat list"
  moving :: "nat \<Rightarrow> movingIO"
  movingSchedule :: "nat list"
  tempDirRemoval :: "error option"
  manifestWritten :: "error option"
  metricsWritten :: "error option"
  deletion :: "nat \<Rightarrow> deleteIO"

subsection \<open>Constants and paths of the builder\<close>

definition DefaultOutputDirectory :: string where "DefaultOutputDirectory = ''build''"
definition NumConcurrentBuilds :: nat where "NumConcurrentBuilds = 40"
definition NumConcurrentCopies :: nat where "NumConcurrentCopies = 2000"
definition ShowMoveProgressBarThreshold :: nat where "ShowMoveProgressBarThreshold = 1000"

definition outputDirectoryPodPath :: string where
  "outputDirectoryPodPath = DefaultOutputDirectory"

definition manifestPodPath :: "world \<Rightarrow> string" where
  "manifestPodPath w = joinPath (platform w) [outputDirectoryPodPath, ''.amagaki'', ''manifest.json'']"

definition metricsPodPath :: "world \<Rightarrow> string" where
  "metricsPodPath w = joinPath (platform w) [outputDirectoryPodPath, ''.amagaki'', ''metrics.json'']"

subsection \<open>\<^verbatim>\<open>Builder.deleteOutputFiles\<close>\<close>

text \<open>
  The body of \<^verbatim>\<open>paths.forEach\<close>, for one path:
  \<^verbatim>\<open>
  try {
    fs.unlinkSync(absOutputPath);
  } catch (err) {
    if (err.errno === -2) {
      console.warn(`Warning: The Amagaki builder was unable to delete a file ...`);
    } else {
      throw err;
    }
  }
  // Delete the directory if it is empty.
  const dirPath = fsPath.dirname(absOutputPath);
  if (!fs.existsSync(dirPath)) { return; }
  const innerPaths = fs.readdirSync(dirPath);
  if (innerPaths.length === 0) { fs.rmdirSync(dirPath); }
  \<close>
  The result is what was done and the error thrown, if any. \<^verbatim>\<open>readdirSync\<close> and
  \<^verbatim>\<open>rmdirSync\<close> are outside the \<^verbatim>\<open>try\<close>.
\<close>

definition pruneDirectory :: "deleteIO \<Rightarrow> string \<Rightarrow> event list \<times> error option" where
  "pruneDirectory io dirPath =
     (if \<not> existsOutcome io then ([ExistsSync dirPath], None)
      else case readdirOutcome io of
             Inl e \<Rightarrow> ([ExistsSync dirPath, Readdir dirPath], Some e)
           | Inr innerPaths \<Rightarrow>
               if length innerPaths = 0
               then ([ExistsSync dirPath, Readdir dirPath, Rmdir dirPath], rmdirOutcome io)
               else ([ExistsSync dirPath, Readdir dirPath], None))"

definition deleteOutputFile :: "world \<Rightarrow> deleteIO \<Rightarrow> string \<Rightarrow> event list \<times> error option" where
  "deleteOutputFile w io outputPath =
     (let absOutputPath = getAbsoluteFilePath (pod w) (joinPath (platform w) [outputDirectoryPodPath, outputPath]);
          pruned = pruneDirectory io (dirname (platform w) absOutputPath)
      in case unlinkOutcome io of
           None \<Rightarrow> (Unlink absOutputPath # fst pruned, snd pruned)
         | Some err \<Rightarrow>
             if errno err = Some (-2)
             then (Unlink absOutputPath # ConsoleWarn absOutputPath # fst pruned, snd pruned)
             else ([Unlink absOutputPath], Some err))"

text \<open>The loop; a thrown error ends it. \<open>n\<close> is the position of the next path.\<close>

fun deleteOutputFiles :: "world \<Rightarrow> nat \<Rightarrow> string list \<Rightarrow> event list \<times> error option" where
  "deleteOutputFiles w n [] = ([], None)"
| "deleteOutputFiles w n (outputPath # rest) =
     (case deleteOutputFile w (deletion w n) outputPath of
        (ev, Some e) \<Rightarrow> (ev, Some e)
      | (ev, None) \<Rightarrow>
          (case deleteOutputFiles w (Suc n) rest of (ev', r) \<Rightarrow> (ev @ ev', r)))"

subsection \<open>Selecting routes\<close>

text \<open>\<^verbatim>\<open>s.replace(/^\//, '')\<close>\<close>

fun stripLeadingSlash :: "string \<Rightarrow> string" where
  "stripLeadingSlash (c # cs) = (if c = CHR ''/'' then cs else c # cs)"
| "stripLeadingSlash [] = []"

text \<open>
  \<^verbatim>\<open>
  options.patterns?.some(pattern =>
    route.podPath &&
    minimatch(route.podPath.replace(/^\//, ''), pattern.replace(/^\//, ''), {matchBase: true}))
  \<close>
  A missing or empty \<^verbatim>\<open>podPath\<close> is falsy.
\<close>

definition routeMatches :: "world \<Rightarrow> string list \<Rightarrow> route \<Rightarrow> bool" where
  "routeMatches w ps r =
     list_ex (\<lambda>pattern.
        case podPath r of
          None \<Rightarrow> False
        | Some pp \<Rightarrow> pp \<noteq> [] \<and> minimatch (platform w) (stripLeadingSlash pp) (stripLeadingSlash pattern)) ps"

text \<open>\<^verbatim>\<open>if (options?.patterns) { routes = routes.filter(...) }\<close>\<close>

definition selectRoutes :: "world \<Rightarrow> exportOptions option \<Rightarrow> route list \<Rightarrow> route list" where
  "selectRoutes w options rs =
     (case options of
        None \<Rightarrow> rs
      | Some opts \<Rightarrow>
          (case patterns opts of
             None \<Rightarrow> rs
           | Some ps \<Rightarrow> filter (routeMatches w ps) rs))"

text \<open>The body of the loop that assembles \<^verbatim>\<open>createdPaths\<close>.\<close>

definition createPath :: "world \<Rightarrow> route \<Rightarrow> createdPath" where
  "createPath w r =
     \<lparr>tempPath = joinPath (platform w) [tempDirRoot (platform w), outputDirectoryPodPath, normalizePath (url r)],
      realPath = getAbsoluteFilePath (pod w) (joinPath (platform w) [outputDirectoryPodPath, normalizePath (url r)]),
      route = r,
      normalPath = normalizePath (url r)\<rparr>"


subsection \<open>Staging a route\<close>

text \<open>
  The iteratee of \<^verbatim>\<open>async.eachLimit(createdPaths, Builder.NumConcurrentBuilds, ...)\<close>:
  \<^verbatim>\<open>
  try {
    if (createdPath.route.provider.type === 'staticDir') {
      return this.copyFileAsync(createdPath.tempPath, (createdPath.route as StaticRoute).staticFile.podPath);
    } else {
      const timer = this.pod.profiler.timer(...);
      let content = '';
      try { content = await createdPath.route.build(); } finally { timer.stop(); }
      return this.writeFileAsync(createdPath.tempPath, content);
    }
  } finally {
    artifacts.push({tempPath: createdPath.tempPath, realPath: createdPath.realPath});
    bar.increment(...);
  }
  \<close>
  \<^verbatim>\<open>copyFileAsync\<close> and \<^verbatim>\<open>writeFileAsync\<close> first make sure the directory exists, which may
  throw, and then return the promise of the copy or write. The \<^verbatim>\<open>return\<close> does not wait for
  that promise: the \<^verbatim>\<open>finally\<close> block runs in the same stretch and the call settles with the
  promise later.
\<close>

definition bookkeeping :: "createdPath \<Rightarrow> event list" where
  "bookkeeping cp = [ArtifactsPush \<lparr>tempPath = tempPath cp, realPath = realPath cp\<rparr>, BarIncrement]"

definition stagingTask :: "world \<Rightarrow> nat \<Rightarrow> createdPath \<Rightarrow> task" where
  "stagingTask w i cp =
     (if providerType (route cp) = ''staticDir'' then
        (case mkdirTemp (staging w i) of
           Some e \<Rightarrow>
             \<lparr>start = [Invoke i, EnsureDirectoryExists (tempPath cp)] @ bookkeeping cp,
              resumes = [], outcome = Some e\<rparr>
         | None \<Rightarrow>
             \<lparr>start = [Invoke i, EnsureDirectoryExists (tempPath cp),
                       CopyFile (getAbsoluteFilePath (pod w) (staticFilePodPath (route cp))) (tempPath cp)]
                      @ bookkeeping cp,
              resumes = [], outcome = copied (staging w i)\<rparr>)
      else
        (case rendered (staging w i) of
           Inl e \<Rightarrow>
             \<lparr>start = [Invoke i, TimerStart (urlPath (route cp)), RouteBuild (urlPath (route cp))],
              resumes = [TimerStop (urlPath (route cp)) # bookkeeping cp],
              outcome = Some e\<rparr>
         | Inr content \<Rightarrow>
             (case mkdirTemp (staging w i) of
                Some e \<Rightarrow>
                  \<lparr>start = [Invoke i, TimerStart (urlPath (route cp)), RouteBuild (urlPath (route cp))],
                   resumes = [[TimerStop (urlPath (route cp)), EnsureDirectoryExists (tempPath cp)]
                              @ bookkeeping cp],
                   outcome = Some e\<rparr>
              | None \<Rightarrow>
                  \<lparr>start = [Invoke i, TimerStart (urlPath (route cp)), RouteBuild (urlPath (route cp))],
                   resumes = [[TimerStop (urlPath (route cp)), EnsureDirectoryExists (tempPath cp),
                               WriteFile (tempPath cp) content] @ bookkeeping cp],
                   outcome = written (staging w i)\<rparr>)))"

subsection \<open>Hashing and moving a staged file\<close>

text \<open>
  The iteratee of \<^verbatim>\<open>async.mapLimit(createdPaths, Builder.NumConcurrentCopies, ...)\<close>:
  \<^verbatim>\<open>
  buildManifest.files.push({path: createdPath.normalPath, sha: await this.getFileSha(createdPath.tempPath)});
  const statResult = await fs.promises.stat(createdPath.tempPath);
  if (createdPath.route.provider.type === 'staticDir') {
    buildMetrics.numStaticRoutes += 1;
    buildMetrics.outputSizeStaticFiles += statResult.size;
  } else {
    buildMetrics.numDocumentRoutes += 1;
    buildMetrics.outputSizeDocuments += statResult.size;
  }
  await this.moveFileAsync(createdPath.tempPath, createdPath.realPath);
  if (showMoveProgressBar) { moveBar.increment(...); }
  \<close>
  with
  \<^verbatim>\<open>
  moveFileAsync(beforePath, afterPath) {
    Builder.ensureDirectoryExists(afterPath);
    return fs.promises.rename(beforePath, afterPath).catch(err => {
      if (err.code === 'EXDEV') { return fs.promises.copyFile(beforePath, afterPath); }
      throw err;
    });
  }
  \<close>
  The call waits three times (four when the rename falls back to a copy): for the hash, for
  the size, for the move.
\<close>

definition hashed :: "createdPath \<Rightarrow> string \<Rightarrow> event list" where
  "hashed cp h =
     [ShaComputed (tempPath cp) h, ManifestFilesPush \<lparr>path = normalPath cp, sha = h\<rparr>,
      Stat (tempPath cp)]"

definition counted :: "createdPath \<Rightarrow> nat \<Rightarrow> event list" where
  "counted cp n = [MetricsAdd (providerType (route cp)) n, EnsureDirectoryExists (realPath cp)]"

definition moveTick :: "bool \<Rightarrow> event list" where
  "moveTick showMoveProgressBar = (if showMoveProgressBar then [MoveBarIncrement] else [])"

definition movingTask :: "world \<Rightarrow> bool \<Rightarrow> nat \<Rightarrow> createdPath \<Rightarrow> task" where
  "movingTask w showMoveProgressBar i cp =
     (case shaOutcome (moving w i) of
        Inl e \<Rightarrow> \<lparr>start = [Invoke i, GetFileSha (tempPath cp)], resumes = [], outcome = Some e\<rparr>
      | Inr h \<Rightarrow>
          (case statOutcome (moving w i) of
             Inl e \<Rightarrow>
               \<lparr>start = [Invoke i, GetFileSha (tempPath cp)], resumes = [hashed cp h], outcome = Some e\<rparr>
           | Inr n \<Rightarrow>
               (case mkdirOutcome (moving w i) of
                  Some e \<Rightarrow>
                    \<lparr>start = [Invoke i, GetFileSha (tempPath cp)],
                     resumes = [hashed cp h, counted cp n], outcome = Some e\<rparr>
                | None \<Rightarrow>
                    (case renameOutcome (moving w i) of
                       None \<Rightarrow>
                         \<lparr>start = [Invoke i, GetFileSha (tempPath cp)],
                          resumes = [hashed cp h, counted cp n @ [Rename (tempPath cp) (realPath cp)],
                                     moveTick showMoveProgressBar],
                          outcome = None\<rparr>
                     | Some err \<Rightarrow>
                         if errorCode err = Some ''EXDEV'' then
                           (case copyOutcome (moving w i) of
                              None \<Rightarrow>
                                \<lparr>start = [Invoke i, GetFileSha (tempPath cp)],
                                 resumes = [hashed cp h, counted cp n @ [Rename (tempPath cp) (realPath cp)],
                                            [CopyFile (tempPath cp) (realPath cp)],
                                            moveTick showMoveProgressBar],
                                 outcome = None\<rparr>
                            | Some e \<Rightarrow>
                                \<lparr>start = [Invoke i, GetFileSha (tempPath cp)],
                                 resumes = [hashed cp h, counted cp n @ [Rename (tempPath cp) (realPath cp)],
                                            [CopyFile (tempPath cp) (realPath cp)]],
                                 outcome = Some e\<rparr>)
                         else
                           \<lparr>start = [Invoke i, GetFileSha (tempPath cp)],
                            resumes = [hashed cp h, counted cp n @ [Rename (tempPath cp) (realPath cp)]],
                            outcome = Some err\<rparr>))))"

text \<open>The tasks of a runner: the iteratee on every item, with the item's index.\<close>

definition tasksOf :: "(nat \<Rightarrow> createdPath \<Rightarrow> task) \<Rightarrow> createdPath list \<Rightarrow> task list" where
  "tasksOf iteratee cps = map (\<lambda>(i, cp). iteratee i cp) (enumerate 0 cps)"

subsection \<open>The shared collections, read off what happened\<close>

fun pushedArtifacts :: "event list \<Rightarrow> artifact list" where
  "pushedArtifacts [] = []"
| "pushedArtifacts (ArtifactsPush a # es) = a # pushedArtifacts es"
| "pushedArtifacts (e # es) = pushedArtifacts es"

fun pushedFiles :: "event list \<Rightarrow> podPathSha list" where
  "pushedFiles [] = []"
| "pushedFiles (ManifestFilesPush f # es) = f # pushedFiles es"
| "pushedFiles (e # es) = pushedFiles es"

definition emptyMetrics :: buildMetrics where
  "emptyMetrics =
     \<lparr>memoryUsage = 0, localesToNumMissingTranslations = [], numMissingTranslations = 0,
      numDocumentRoutes = 0, numStaticRoutes = 0, outputSizeDocuments = 0,
      outputSizeStaticFiles = 0\<rparr>"

fun countedMetrics :: "buildMetrics \<Rightarrow> event list \<Rightarrow> buildMetrics" where
  "countedMetrics m [] = m"
| "countedMetrics m (MetricsAdd provider n # es) =
     countedMetrics
       (if provider = ''staticDir''
        then m\<lparr>numStaticRoutes := numStaticRoutes m + 1,
               outputSizeStaticFiles := outputSizeStaticFiles m + n\<rparr>
        else m\<lparr>numDocumentRoutes := numDocumentRoutes m + 1,
               outputSizeDocuments := outputSizeDocuments m + n\<rparr>) es"
| "countedMetrics m (e # es) = countedMetrics m es"

text \<open>
  \<^verbatim>\<open>
  for (const locale of Object.values(this.pod.cache.locales)) {
    if (locale === this.pod.defaultLocale || locale.recordedStrings.size === 0) { continue; }
    localesToNumMissingTranslations[locale.id] = locale.recordedStrings.size;
    buildMetrics.numMissingTranslations += locale.recordedStrings.size;
  }
  buildMetrics.localesToNumMissingTranslations = localesToNumMissingTranslations;
  \<close>
\<close>

fun missingTranslations :: "podLocale list \<Rightarrow> (string \<times> nat) list \<times> nat \<Rightarrow> (string \<times> nat) list \<times> nat" where
  "missingTranslations [] acc = acc"
| "missingTranslations (l # ls) (table, num) =
     (if isDefaultLocale l \<or> recordedStrings l = 0
      then missingTranslations ls (table, num)
      else missingTranslations ls
             (AList.update (localeId l) (recordedStrings l) table, num + recordedStrings l))"

definition finalMetrics :: "world \<Rightarrow> event list \<Rightarrow> buildMetrics" where
  "finalMetrics w tr =
     (let m = (countedMetrics emptyMetrics tr)\<lparr>memoryUsage := heapUsed (platform w)\<rparr>;
          (table, num) = missingTranslations (locales (pod w)) ([], numMissingTranslations m)
      in m\<lparr>localesToNumMissingTranslations := table, numMissingTranslations := num\<rparr>)"


subsection \<open>\<^verbatim>\<open>Builder.export\<close>\<close>

text \<open>
  The export either returns a \<^verbatim>\<open>BuildResult\<close> or throws. Next to the error, the model
  records where the export was when it was thrown.
\<close>

datatype phase =
    BeforeBuild | RouteCheck | Staging | Promotion | TempCleanup | Persisting | StaleCleanup
  | AfterBuild

type_synonym exported = "event list \<times> ((phase \<times> error) + buildResult)"

definition nothingToBuild :: "world \<Rightarrow> error" where
  "nothingToBuild w =
     Error (''Nothing to build. No routes found for pod rooted at: '' @ podRoot (pod w) @
            ''. Ensure this is the right directory, and ensure that there is either content or static files to build.'')"

text \<open>
  The end of the export, from the log of the result on:
  \<^verbatim>\<open>
  this.logResult(buildDiff, buildMetrics, options);
  await this.pod.plugins.trigger('afterBuild', result);
  return result;
  \<close>
\<close>

definition report :: "world \<Rightarrow> buildResult \<Rightarrow> event list \<Rightarrow> exported" where
  "report w result t =
     (case afterBuild (pod w) result of
        Some e \<Rightarrow> (t @ [LogResult (diff result) (metrics result), TriggerHook ''afterBuild''],
                   Inl (AfterBuild, e))
      | None \<Rightarrow> (t @ [LogResult (diff result) (metrics result), TriggerHook ''afterBuild''],
                 Inr result))"

text \<open>
  \<^verbatim>\<open>
  const buildDiff = this.cleanOutputUsingManifests(existingManifest, buildManifest, options);
  // After diff has been computed, actually delete files. Incremental builds
  // don't support deletes, so avoid deleting files if building incrementally.
  if (!options?.patterns) {
    this.deleteOutputFiles(buildDiff.deletes);
  }
  const result: BuildResult = {diff: buildDiff, manifest: buildManifest, metrics: buildMetrics};
  \<close>
\<close>

definition cleanUp ::
  "world \<Rightarrow> exportOptions option \<Rightarrow> buildManifest \<Rightarrow> buildMetrics \<Rightarrow> event list \<Rightarrow> exported" where
  "cleanUp w options buildManifest buildMetrics t =
     (let buildDiff = cleanOutputUsingManifests (existingManifest (pod w)) buildManifest options;
          result = \<lparr>metrics = buildMetrics, manifest = buildManifest, diff = buildDiff\<rparr>
      in if \<not> patternsGiven options
         then (case deleteOutputFiles w 0 (deletes buildDiff) of
                 (ev, Some e) \<Rightarrow> (t @ ev, Inl (StaleCleanup, e))
               | (ev, None) \<Rightarrow> report w result (t @ ev))
         else report w result t)"

text \<open>
  After the second runner: the memory reading, the end of the second progress bar, the
  removal of the temporary directory, the missing translations, and
  \<^verbatim>\<open>
  await Promise.all([
    this.writeFileAsync(this.pod.getAbsoluteFilePath(this.manifestPodPath), JSON.stringify(buildManifest, null, 2)),
    this.writeFileAsync(this.pod.getAbsoluteFilePath(this.metricsPodPath), JSON.stringify(buildMetrics, null, 2)),
  ]);
  \<close>
  Both writes are issued before either is awaited. \<open>moved\<close> is what the second runner did.
\<close>

definition persist ::
  "world \<Rightarrow> exportOptions option \<Rightarrow> bool \<Rightarrow> event list \<Rightarrow> event list \<Rightarrow> exported" where
  "persist w options showMoveProgressBar moved t =
     (let t1 = t @ (if showMoveProgressBar then [MoveBarStop] else []) @
                [DeleteDirectoryRecursive (tempDirRoot (platform w))]
      in case tempDirRemoval w of
           Some e \<Rightarrow> (t1, Inl (TempCleanup, e))
         | None \<Rightarrow>
             (let buildManifest = \<lparr>branch = None, built = now (platform w), commit = None,
                                   files = pushedFiles moved\<rparr>;
                  buildMetrics = finalMetrics w moved;
                  t2 = t1 @ [WriteManifest (getAbsoluteFilePath (pod w) (manifestPodPath w)) buildManifest,
                             WriteMetrics (getAbsoluteFilePath (pod w) (metricsPodPath w)) buildMetrics]
              in case manifestWritten w of
                   Some e \<Rightarrow> (t2, Inl (Persisting, e))
                 | None \<Rightarrow>
                     (case metricsWritten w of
                        Some e \<Rightarrow> (t2, Inl (Persisting, e))
                      | None \<Rightarrow> cleanUp w options buildManifest buildMetrics t2)))"

text \<open>
  The second runner, \<^verbatim>\<open>await async.mapLimit(createdPaths, Builder.NumConcurrentCopies, ...)\<close>,
  after the first progress bar is stopped and the second, for
  \<^verbatim>\<open>artifacts.length >= Builder.ShowMoveProgressBarThreshold\<close>, started. \<open>staged\<close> is what the
  first runner did.
\<close>

definition movingRun :: "world \<Rightarrow> bool \<Rightarrow> createdPath list \<Rightarrow> pool" where
  "movingRun w showMoveProgressBar createdPaths =
     runLimit NumConcurrentCopies (movingSchedule w)
       (tasksOf (movingTask w showMoveProgressBar) createdPaths)"

definition promote ::
  "world \<Rightarrow> exportOptions option \<Rightarrow> createdPath list \<Rightarrow> event list \<Rightarrow> event list \<Rightarrow> exported" where
  "promote w options createdPaths staged t =
     (let showMoveProgressBar = (ShowMoveProgressBarThreshold \<le> length (pushedArtifacts staged));
          t1 = t @ [BarStop] @
               (if showMoveProgressBar then [MoveBarStart (length (pushedArtifacts staged))] else []);
          p = movingRun w showMoveProgressBar createdPaths
      in case firstError p of
           Some e \<Rightarrow> (t1 @ trace p, Inl (Promotion, e))
         | None \<Rightarrow> persist w options showMoveProgressBar (trace p) (t1 @ trace p))"

text \<open>
  The first runner, \<^verbatim>\<open>await async.eachLimit(createdPaths, Builder.NumConcurrentBuilds, ...)\<close>.
  When it rejects the export throws at this \<^verbatim>\<open>await\<close>; the calls then in flight still run
  to their end, and what they do is part of what happened.
\<close>

definition stagingRun :: "world \<Rightarrow> createdPath list \<Rightarrow> pool" where
  "stagingRun w createdPaths =
     runLimit NumConcurrentBuilds (stagingSchedule w) (tasksOf (stagingTask w) createdPaths)"

definition stage :: "world \<Rightarrow> exportOptions option \<Rightarrow> createdPath list \<Rightarrow> event list \<Rightarrow> exported" where
  "stage w options createdPaths t =
     (let p = stagingRun w createdPaths
      in case firstError p of
           Some e \<Rightarrow> (t @ trace p, Inl (Staging, e))
         | None \<Rightarrow> promote w options createdPaths (trace p) (t @ trace p))"

text \<open>The routes an export builds, and their \<^verbatim>\<open>createdPaths\<close>.\<close>

definition selectedRoutes :: "world \<Rightarrow> exportOptions option \<Rightarrow> route list" where
  "selectedRoutes w options = selectRoutes w options (routes (pod w))"

definition createdPaths :: "world \<Rightarrow> exportOptions option \<Rightarrow> createdPath list" where
  "createdPaths w options = map (createPath w) (selectedRoutes w options)"

text \<open>
  The beginning: the \<^verbatim>\<open>beforeBuild\<close> hook, the existing manifest, the temporary directory,
  the routes and their selection, the start of the progress bar, and
  \<^verbatim>\<open>
  if (routes.length === 0) {
    throw new Error(`Nothing to build. No routes found for pod rooted at: ${this.pod.root}. ...`);
  }
  \<close>
\<close>

definition preparation :: "world \<Rightarrow> exportOptions option \<Rightarrow> event list" where
  "preparation w options =
     [TriggerHook ''beforeBuild'', ReadManifest (manifestPodPath w),
      MakeTempDir (tempDirRoot (platform w)), ListRoutes,
      BarStart (length (selectedRoutes w options)) 0]"

definition export :: "world \<Rightarrow> exportOptions option \<Rightarrow> exported" where
  "export w options =
     (case beforeBuild (pod w) of
        Some e \<Rightarrow> ([TriggerHook ''beforeBuild''], Inl (BeforeBuild, e))
      | None \<Rightarrow>
          if length (selectedRoutes w options) = 0
          then (preparation w options, Inl (RouteCheck, nothingToBuild w))
          else stage w options (createdPaths w options) (preparation w options))"

subsection \<open>Notions the properties are stated with\<close>

definition taskEvents :: "task \<Rightarrow> event list" where
  "taskEvents t = start t @ concat (resumes t)"

definition owed :: "(event list list \<times> error option) list \<Rightarrow> event list" where
  "owed run = concat (map (\<lambda>r. concat (fst r)) run)"

definition failures :: "(event list list \<times> error option) list \<Rightarrow> nat" where
  "failures run = length (filter (\<lambda>r. snd r \<noteq> None) run)"

definition launched :: "task list \<Rightarrow> nat \<Rightarrow> pool \<Rightarrow> bool" where
  "launched tasks n p \<longleftrightarrow>
     n \<le> length tasks \<and> queue p = drop n tasks \<and>
     mset (trace p) + mset (owed (running p)) = mset (concat (map taskEvents (take n tasks))) \<and>
     (firstError p = None \<longrightarrow>
        length (filter (\<lambda>t. outcome t \<noteq> None) (take n tasks)) = failures (running p))"

definition saturated :: "nat \<Rightarrow> pool \<Rightarrow> bool" where
  "saturated limit p \<longleftrightarrow> (firstError p = None \<and> queue p \<noteq> [] \<longrightarrow> limit \<le> length (running p))"

fun isDeletion :: "event \<Rightarrow> bool" where
  "isDeletion (Unlink p) = True"
| "isDeletion (Rmdir p) = True"
| "isDeletion e = False"

fun isPersisting :: "event \<Rightarrow> bool" where
  "isPersisting (WriteManifest p m) = True"
| "isPersisting (WriteMetrics p m) = True"
| "isPersisting e = False"

fun isPromotion :: "event \<Rightarrow> bool" where
  "isPromotion (GetFileSha p) = True"
| "isPromotion (ShaComputed p h) = True"
| "isPromotion (ManifestFilesPush f) = True"
| "isPromotion (Stat p) = True"
| "isPromotion (MetricsAdd k n) = True"
| "isPromotion (Rename p q) = True"
| "isPromotion e = False"


subsection \<open>Example worlds\<close>

definition exampleJoin :: "string list \<Rightarrow> string" where
  "exampleJoin parts =
     (case parts of
        [] \<Rightarrow> ''.''
      | p # ps \<Rightarrow> p @ concat (map (\<lambda>q. CHR ''/'' # stripLeadingSlash q) ps))"

definition exampleDirname :: "string \<Rightarrow> string" where
  "exampleDirname p = rev (drop 1 (dropWhile (\<lambda>c. c \<noteq> CHR ''/'') (rev p)))"

definition examplePlatform :: platform where
  "examplePlatform =
     \<lparr>joinPath = exampleJoin, dirname = exampleDirname,
      minimatch = (\<lambda>p pattern. p = pattern),
      now = ''Mon Nov 02 2026'', tempDirRoot = ''/tmp/amagaki-build-x'', heapUsed = 1000\<rparr>"

definition pageRoute :: route where
  "pageRoute = \<lparr>podPath = Some ''/content/a.md'', urlPath = ''/a/'', url = ''/a/'',
                providerType = ''collection'', staticFilePodPath = ''''\<rparr>"

definition cssRoute :: route where
  "cssRoute = \<lparr>podPath = Some ''/src/m.css'', urlPath = ''/m.css'', url = ''/m.css'',
               providerType = ''staticDir'', staticFilePodPath = ''/src/m.css''\<rparr>"

definition examplePod :: pod where
  "examplePod =
     \<lparr>podRoot = ''/site'', getAbsoluteFilePath = (\<lambda>p. ''/site/'' @ stripLeadingSlash p),
      existingManifest = Some (manifestOf [(''/a/index.html'', ''aa''), (''/old.html'', ''cc'')]),
      routes = [pageRoute, cssRoute], locales = [],
      beforeBuild = None, afterBuild = (\<lambda>r. None)\<rparr>"

definition fineStaging :: stagingIO where
  "fineStaging = \<lparr>mkdirTemp = None, copied = None, rendered = Inr ''<p>a</p>'', written = None\<rparr>"

definition fineMoving :: movingIO where
  "fineMoving = \<lparr>shaOutcome = Inr ''a2'', statOutcome = Inr 8, mkdirOutcome = None,
                 renameOutcome = None, copyOutcome = None\<rparr>"

definition fineDeletion :: deleteIO where
  "fineDeletion = \<lparr>unlinkOutcome = None, existsOutcome = True, readdirOutcome = Inr [''a''],
                   rmdirOutcome = None\<rparr>"

definition exampleWorld :: world where
  "exampleWorld =
     \<lparr>pod = examplePod, platform = examplePlatform,
      staging = (\<lambda>i. fineStaging), stagingSchedule = [],
      moving = (\<lambda>i. fineMoving), movingSchedule = [],
      tempDirRemoval = None, manifestWritten = None, metricsWritten = None,
      deletion = (\<lambda>n. fineDeletion)\<rparr>"

definition pagesOnly :: "exportOptions option" where
  "pagesOnly = Some \<lparr>patterns = Some [''/content/a.md'']\<rparr>"


definition showsMoveBar :: "event list \<Rightarrow> bool" where
  "showsMoveBar staged \<longleftrightarrow> ShowMoveProgressBarThreshold \<le> length (pushedArtifacts staged)"

definition moveBarStart :: "event list \<Rightarrow> event list" where
  "moveBarStart staged =
     BarStop # (if showsMoveBar staged then [MoveBarStart (length (pushedArtifacts staged))] else [])"

definition newManifest :: "world \<Rightarrow> event list \<Rightarrow> buildManifest" where
  "newManifest w moved =
     \<lparr>branch = None, built = now (platform w), commit = None, files = pushedFiles moved\<rparr>"

definition tempRemoval :: "world \<Rightarrow> bool \<Rightarrow> event list" where
  "tempRemoval w b =
     (if b then [MoveBarStop] else []) @ [DeleteDirectoryRecursive (tempDirRoot (platform w))]"

definition persistWrites :: "world \<Rightarrow> event list \<Rightarrow> event list" where
  "persistWrites w moved =
     [WriteManifest (getAbsoluteFilePath (pod w) (manifestPodPath w)) (newManifest w moved),
      WriteMetrics (getAbsoluteFilePath (pod w) (metricsPodPath w)) (finalMetrics w moved)]"

definition newDiff :: "world \<Rightarrow> exportOptions option \<Rightarrow> event list \<Rightarrow> buildDiffPaths" where
  "newDiff w options moved =
     cleanOutputUsingManifests (existingManifest (pod w)) (newManifest w moved) options"

definition newResult :: "world \<Rightarrow> exportOptions option \<Rightarrow> event list \<Rightarrow> buildResult" where
  "newResult w options moved =
     \<lparr>metrics = finalMetrics w moved, manifest = newManifest w moved, diff = newDiff w options moved\<rparr>"





subsection \<open>More example worlds\<close>

definition lockedWorld :: world where
  "lockedWorld = exampleWorld\<lparr>deletion := (\<lambda>n. fineDeletion\<lparr>unlinkOutcome := Some EACCES\<rparr>)\<rparr>"

definition goneWorld :: world where
  "goneWorld = exampleWorld\<lparr>deletion := (\<lambda>n. fineDeletion\<lparr>unlinkOutcome := Some ENOENT\<rparr>)\<rparr>"



definition builtManifest :: buildManifest where
  "builtManifest =
     \<lparr>branch = None, built = ''Mon Nov 02 2026'', commit = None,
      files = [\<lparr>path = ''/a/index.html'', sha = ''a2''\<rparr>, \<lparr>path = ''/m.css'', sha = ''a2''\<rparr>]\<rparr>"


section \<open>Deleting stale files\<close>

definition absoluteOutputPath :: "world \<Rightarrow> string \<Rightarrow> string" where
  "absoluteOutputPath w outputPath =
     getAbsoluteFilePath (pod w) (joinPath (platform w) [outputDirectoryPodPath, outputPath])"


section \<open>Hashing before moving\<close>

text \<open>The temporary paths whose hash has been computed.\<close>

fun shaPaths :: "event list \<Rightarrow> string set" where
  "shaPaths [] = {}"
| "shaPaths (ShaComputed p h # es) = insert p (shaPaths es)"
| "shaPaths (e # es) = shaPaths es"

text \<open>
  Every rename is of a file whose hash has been computed before, or was already among
  \<open>H\<close>.
\<close>

fun movedAfterHash :: "string set \<Rightarrow> event list \<Rightarrow> bool" where
  "movedAfterHash H [] = True"
| "movedAfterHash H (ShaComputed p h # es) = movedAfterHash (insert p H) es"
| "movedAfterHash H (Rename p q # es) = (p \<in> H \<and> movedAfterHash H es)"
| "movedAfterHash H (e # es) = movedAfterHash H es"

fun isRename :: "event \<Rightarrow> bool" where
  "isRename (Rename p q) = True"
| "isRename e = False"

text \<open>The order holds in every state of a runner whose tasks each keep it.\<close>

definition ordered ::
  "task list \<Rightarrow> (event list list \<times> error option) list \<Rightarrow> event list \<Rightarrow> bool" where
  "ordered q run tr \<longleftrightarrow>
     movedAfterHash {} tr \<and>
     (\<forall>r\<in>set run. movedAfterHash (shaPaths tr) (concat (fst r))) \<and>
     (\<forall>t\<in>set q. movedAfterHash {} (taskEvents t))"


section \<open>Staging: bookkeeping and failure\<close>




chapter \<open>Properties\<close>

section \<open>Output paths\<close>

lemma endsWith_slash_iff: "endsWith p ''/'' \<longleftrightarrow> (\<exists>q. p = q @ ''/'')"
proof
  assume h: "endsWith p ''/''"
  then have "p = take (length p - 1) p @ drop (length p - 1) p"
    by simp
  with h show "\<exists>q. p = q @ ''/''"
    unfolding endsWith_def by (metis length_Cons list.size(3) One_nat_def)
next
  assume "\<exists>q. p = q @ ''/''"
  then show "endsWith p ''/''"
    by (auto simp: endsWith_def)
qed

lemma not_endsWith_index_html: "\<not> endsWith (q @ ''index.html'') ''/''"
  by (simp add: endsWith_def)

lemma extnameLoop_index_html:
  "extnameLoop (rev (q @ ''/index.html''))
     \<lparr>startDot = -1, startPart = 0, endIdx = -1, matchedSlash = True, preDotState = 0\<rparr>
   = \<lparr>startDot = int (length q) + 6, startPart = int (length q) + 1,
       endIdx = int (length q) + 11, matchedSlash = False, preDotState = -1\<rparr>"
  by (simp add: markEnd_def trackDot_def)

lemma extname_index_html: "extname (q @ ''/index.html'') = ''.html''"
  unfolding extname_def extnameLoop_index_html
  by (simp add: slice_def nat_add_distrib)

lemma normalizePath_index_html: "normalizePath (q @ ''/index.html'') = q @ ''/index.html''"
proof -
  have "\<not> endsWith (q @ ''/index.html'') ''/''"
    using not_endsWith_index_html [of "q @ ''/''"] by simp
  then show ?thesis
    by (simp add: normalizePath_def extname_index_html)
qed

text \<open>
  C7. \<^verbatim>\<open>normalizePath\<close> appends \<^verbatim>\<open>index.html\<close> to a path that ends with a slash;
  appends \<^verbatim>\<open>/index.html\<close> to a path that neither ends with a slash nor has a file
  extension (\<^verbatim>\<open>path.extname\<close> gives the empty string); and returns any other path
  unchanged.
\<close>

theorem normalizePath_rule:
  "(endsWith p ''/'' \<longrightarrow> normalizePath p = p @ ''index.html'') \<and>
   (\<not> endsWith p ''/'' \<and> extname p = '''' \<longrightarrow> normalizePath p = p @ ''/index.html'') \<and>
   (\<not> endsWith p ''/'' \<and> extname p \<noteq> '''' \<longrightarrow> normalizePath p = p)"
  by (simp add: normalizePath_def)

theorem normalizePath_rule_witness:
  "endsWith ''/about/'' ''/'' \<and> normalizePath ''/about/'' = ''/about/index.html'' \<and>
   \<not> endsWith ''/about'' ''/'' \<and> extname ''/about'' = '''' \<and>
   normalizePath ''/about'' = ''/about/index.html'' \<and>
   \<not> endsWith ''/main.css'' ''/'' \<and> extname ''/main.css'' = ''.css'' \<and>
   normalizePath ''/main.css'' = ''/main.css''"
proof -
  have a: "endsWith ''/about/'' ''/''"
    by (simp add: endsWith_def)
  have b: "\<not> endsWith ''/about'' ''/'' \<and> extname ''/about'' = ''''"
    by (simp add: endsWith_def extname_def markEnd_def trackDot_def)
  have c: "\<not> endsWith ''/main.css'' ''/'' \<and> extname ''/main.css'' = ''.css''"
    by (simp add: endsWith_def extname_def markEnd_def trackDot_def slice_def)
  from a b c normalizePath_rule [of "''/about/''"] normalizePath_rule [of "''/about''"]
    normalizePath_rule [of "''/main.css''"]
  show ?thesis by simp
qed

text \<open>
  C8. \<^verbatim>\<open>normalizePath\<close> is idempotent: normalizing a normalized path returns it
  unchanged.
\<close>

theorem normalizePath_idempotent: "normalizePath (normalizePath p) = normalizePath p"
proof (cases "endsWith p ''/''")
  case True
  then obtain q where q: "p = q @ ''/''"
    using endsWith_slash_iff by blast
  have "normalizePath p = q @ ''/index.html''"
    using True by (simp add: normalizePath_def q)
  then show ?thesis
    by (simp add: normalizePath_index_html)
next
  case False
  show ?thesis
  proof (cases "extname p = ''''")
    case True
    with False have "normalizePath p = p @ ''/index.html''"
      by (simp add: normalizePath_def)
    then show ?thesis
      by (simp add: normalizePath_index_html)
  next
    case False
    with \<open>\<not> endsWith p ''/''\<close> show ?thesis
      by (simp add: normalizePath_def)
  qed
qed


section \<open>The manifest diff\<close>

lemma foldl_setProperty_other:
  "k \<notin> path ` set fs \<Longrightarrow>
   foldl (\<lambda>obj pathSha. setProperty obj (path pathSha) (sha pathSha)) obj fs k = obj k"
  by (induction fs arbitrary: obj) (auto simp: setProperty_def)

lemma foldl_setProperty_found:
  "distinct (map path fs) \<Longrightarrow> f \<in> set fs \<Longrightarrow> path f \<noteq> ''__proto__'' \<Longrightarrow>
   foldl (\<lambda>obj pathSha. setProperty obj (path pathSha) (sha pathSha)) obj fs (path f) = Some (sha f)"
proof (induction fs arbitrary: obj)
  case Nil
  then show ?case by simp
next
  case (Cons g fs)
  show ?case
  proof (cases "f = g")
    case True
    with Cons.prems have "path g \<notin> path ` set fs" by auto
    then have "foldl (\<lambda>obj pathSha. setProperty obj (path pathSha) (sha pathSha))
                 (setProperty obj (path g) (sha g)) fs (path g)
               = setProperty obj (path g) (sha g) (path g)"
      by (rule foldl_setProperty_other)
    with True Cons.prems(3) show ?thesis
      by (simp add: setProperty_def)
  next
    case False
    with Cons show ?thesis by simp
  qed
qed

lemma proto_inherited: "''__proto__'' \<in> set objectPrototypeKeys"
  by (simp add: objectPrototypeKeys_def)

lemma indexFiles_found:
  assumes "distinct (map path fs)" and "f \<in> set fs" and "path f \<notin> set objectPrototypeKeys"
  shows "indexFiles fs (path f) = Some (sha f)"
proof -
  from assms(3) proto_inherited have "path f \<noteq> ''__proto__''"
    by auto
  with assms(1,2) show ?thesis
    unfolding indexFiles_def by (rule foldl_setProperty_found)
qed

lemma indexFiles_missing: "k \<notin> path ` set fs \<Longrightarrow> indexFiles fs k = None"
  unfolding indexFiles_def by (simp add: foldl_setProperty_other)

lemma hasProperty_indexFiles:
  assumes "distinct (map path fs)" and "k \<notin> set objectPrototypeKeys"
  shows "hasProperty k (indexFiles fs) \<longleftrightarrow> k \<in> path ` set fs"
proof (cases "k \<in> path ` set fs")
  case True
  then obtain f where "f \<in> set fs" "k = path f" by auto
  with assms indexFiles_found [of fs f] show ?thesis
    by (simp add: hasProperty_def)
next
  case False
  with assms(2) show ?thesis
    by (simp add: hasProperty_def indexFiles_missing)
qed

lemma getProperty_indexFiles:
  assumes "distinct (map path fs)" and "f \<in> set fs" and "path f \<notin> set objectPrototypeKeys"
  shows "JSString h = getProperty (indexFiles fs) (path f) \<longleftrightarrow> sha f = h"
proof -
  have "indexFiles fs (path f) = Some (sha f)"
    using assms by (rule indexFiles_found)
  then have "getProperty (indexFiles fs) (path f) = JSString (sha f)"
    by (simp add: getProperty_def)
  then show ?thesis by auto
qed

lemma same_path_same_entry:
  assumes "distinct (map path fs)" and "f \<in> set fs" and "g \<in> set fs" and "path g = path f"
  shows "g = f"
  using assms by (auto simp: distinct_map dest: inj_onD)

lemma foldl_classify:
  "foldl (classify obj) d xs =
     d\<lparr>adds := adds d @ map path (filter (\<lambda>f. \<not> hasProperty (path f) obj) xs),
       edits := edits d @ map path (filter (\<lambda>f. hasProperty (path f) obj \<and>
                  JSString (sha f) \<noteq> getProperty obj (path f)) xs),
       noChanges := noChanges d @ map path (filter (\<lambda>f. hasProperty (path f) obj \<and>
                  JSString (sha f) = getProperty obj (path f)) xs)\<rparr>"
  by (induction xs arbitrary: d) (simp_all add: classify_def)

lemma foldl_collectDelete:
  "foldl (collectDelete obj) d xs =
     d\<lparr>deletes := deletes d @ map path (filter (\<lambda>g. \<not> hasProperty (path g) obj) xs)\<rparr>"
  by (induction xs arbitrary: d) (simp_all add: collectDelete_def)

lemma three_way_split:
  assumes "distinct (map key xs)"
    and "\<And>x. x \<in> set xs \<Longrightarrow> \<not> (a x \<and> b x) \<and> \<not> (a x \<and> c x) \<and> \<not> (b x \<and> c x)"
  shows "distinct (map key (filter a xs) @ map key (filter b xs) @ map key (filter c xs))"
  using assms
proof (induction xs)
  case Nil
  then show ?case by simp
next
  case (Cons x xs)
  then have ih: "distinct (map key (filter a xs) @ map key (filter b xs) @ map key (filter c xs))"
    by simp
  have fresh: "key x \<notin> key ` set xs"
    using Cons.prems(1) by simp
  have excl: "\<not> (a x \<and> b x) \<and> \<not> (a x \<and> c x) \<and> \<not> (b x \<and> c x)"
    using Cons.prems(2) by simp
  from ih fresh excl show ?case
    by auto
qed

lemma classified_paths_cover:
  assumes "\<And>x. x \<in> set xs \<Longrightarrow> a x \<or> b x \<or> c x"
  shows "set (map key (filter a xs) @ map key (filter b xs) @ map key (filter c xs)) = key ` set xs"
  using assms by auto

lemma lookup_unique:
  assumes "distinct (map path fs)" and "g \<in> set fs"
  shows "(\<exists>g'\<in>set fs. path g' = path g \<and> Q (sha g')) \<longleftrightarrow> Q (sha g)"
proof
  assume "\<exists>g'\<in>set fs. path g' = path g \<and> Q (sha g')"
  then obtain g' where g': "g' \<in> set fs" "path g' = path g" "Q (sha g')"
    by blast
  from same_path_same_entry [OF assms(1) assms(2) g'(1) g'(2)] have "g' = g" .
  with g'(3) show "Q (sha g)" by simp
next
  assume "Q (sha g)"
  with assms(2) show "\<exists>g'\<in>set fs. path g' = path g \<and> Q (sha g')"
    by blast
qed

lemma classify_conditions:
  assumes dP: "distinct (map path (files P))"
    and kP: "set (manifestPaths P) \<inter> set objectPrototypeKeys = {}"
    and kf: "path f \<notin> set objectPrototypeKeys"
  shows "hasProperty (path f) (indexFiles (files P)) \<longleftrightarrow> path f \<in> set (manifestPaths P)"
    and "(hasProperty (path f) (indexFiles (files P)) \<and>
          JSString (sha f) = getProperty (indexFiles (files P)) (path f)) \<longleftrightarrow>
         (\<exists>g\<in>set (files P). path g = path f \<and> sha g = sha f)"
    and "(hasProperty (path f) (indexFiles (files P)) \<and>
          JSString (sha f) \<noteq> getProperty (indexFiles (files P)) (path f)) \<longleftrightarrow>
         (\<exists>g\<in>set (files P). path g = path f \<and> sha g \<noteq> sha f)"
proof -
  show has: "hasProperty (path f) (indexFiles (files P)) \<longleftrightarrow> path f \<in> set (manifestPaths P)"
    using hasProperty_indexFiles [OF dP kf] by (simp add: manifestPaths_def)
  show "(hasProperty (path f) (indexFiles (files P)) \<and>
          JSString (sha f) = getProperty (indexFiles (files P)) (path f)) \<longleftrightarrow>
         (\<exists>g\<in>set (files P). path g = path f \<and> sha g = sha f)"
  proof (cases "path f \<in> set (manifestPaths P)")
    case True
    then obtain g where g: "g \<in> set (files P)" "path g = path f"
      by (auto simp: manifestPaths_def)
    from kf g(2) have kg: "path g \<notin> set objectPrototypeKeys" by simp
    have "JSString (sha f) = getProperty (indexFiles (files P)) (path g) \<longleftrightarrow> sha g = sha f"
      by (rule getProperty_indexFiles [OF dP g(1) kg])
    moreover have "(\<exists>g'\<in>set (files P). path g' = path g \<and> sha g' = sha f) \<longleftrightarrow> sha g = sha f"
      by (rule lookup_unique [OF dP g(1)])
    ultimately show ?thesis
      using True has by (simp add: g(2))
  next
    case False
    have "\<not> (\<exists>g\<in>set (files P). path g = path f \<and> sha g = sha f)"
    proof
      assume "\<exists>g\<in>set (files P). path g = path f \<and> sha g = sha f"
      then obtain g where "g \<in> set (files P)" "path g = path f"
        by blast
      then have "path f \<in> path ` set (files P)"
        by (metis imageI)
      with False show False
        by (simp add: manifestPaths_def)
    qed
    with False has show ?thesis by simp
  qed
  show "(hasProperty (path f) (indexFiles (files P)) \<and>
          JSString (sha f) \<noteq> getProperty (indexFiles (files P)) (path f)) \<longleftrightarrow>
         (\<exists>g\<in>set (files P). path g = path f \<and> sha g \<noteq> sha f)"
  proof (cases "path f \<in> set (manifestPaths P)")
    case True
    then obtain g where g: "g \<in> set (files P)" "path g = path f"
      by (auto simp: manifestPaths_def)
    from kf g(2) have kg: "path g \<notin> set objectPrototypeKeys" by simp
    have "JSString (sha f) = getProperty (indexFiles (files P)) (path g) \<longleftrightarrow> sha g = sha f"
      by (rule getProperty_indexFiles [OF dP g(1) kg])
    moreover have "(\<exists>g'\<in>set (files P). path g' = path g \<and> sha g' \<noteq> sha f) \<longleftrightarrow> sha g \<noteq> sha f"
      by (rule lookup_unique [OF dP g(1)])
    ultimately show ?thesis
      using True has by (simp add: g(2))
  next
    case False
    have "\<not> (\<exists>g\<in>set (files P). path g = path f \<and> sha g \<noteq> sha f)"
    proof
      assume "\<exists>g\<in>set (files P). path g = path f \<and> sha g \<noteq> sha f"
      then obtain g where "g \<in> set (files P)" "path g = path f"
        by blast
      then have "path f \<in> path ` set (files P)"
        by (metis imageI)
      with False show False
        by (simp add: manifestPaths_def)
    qed
    with False has show ?thesis by simp
  qed
qed

lemma path_in_manifest: "g \<in> set (files P) \<Longrightarrow> path g = p \<Longrightarrow> p \<in> set (manifestPaths P)"
  by (auto simp: manifestPaths_def)

lemma manifest_path_entry: "p \<in> set (manifestPaths P) \<Longrightarrow> \<exists>g\<in>set (files P). path g = p"
  by (auto simp: manifestPaths_def)

lemma cleanOutputUsingManifests_lists:
  assumes dP: "distinct (manifestPaths P)" and dN: "distinct (manifestPaths N)"
    and kP: "set (manifestPaths P) \<inter> set objectPrototypeKeys = {}"
    and kN: "set (manifestPaths N) \<inter> set objectPrototypeKeys = {}"
  shows "cleanOutputUsingManifests (Some P) N opts =
     \<lparr>adds = map path (filter (\<lambda>f. path f \<notin> set (manifestPaths P)) (files N)),
      edits = map path (filter (\<lambda>f. \<exists>g\<in>set (files P). path g = path f \<and> sha g \<noteq> sha f) (files N)),
      noChanges = map path (filter (\<lambda>f. \<exists>g\<in>set (files P). path g = path f \<and> sha g = sha f) (files N)),
      deletes = (if patternsGiven opts then []
                 else map path (filter (\<lambda>g. path g \<notin> set (manifestPaths N)) (files P)))\<rparr>"
proof -
  let ?old = "indexFiles (files P)" and ?new = "indexFiles (files N)"
  have dP': "distinct (map path (files P))" and dN': "distinct (map path (files N))"
    using dP dN by (simp_all add: manifestPaths_def)
  have nk: "path f \<notin> set objectPrototypeKeys" if "f \<in> set (files N)" for f
    using kN that by (auto simp: manifestPaths_def)
  have pk: "path g \<notin> set objectPrototypeKeys" if "g \<in> set (files P)" for g
    using kP that by (auto simp: manifestPaths_def)
  have fa: "filter (\<lambda>f. \<not> hasProperty (path f) ?old) (files N) =
            filter (\<lambda>f. path f \<notin> set (manifestPaths P)) (files N)"
    by (rule filter_cong) (simp_all add: classify_conditions(1) [OF dP' kP nk])
  have fe: "filter (\<lambda>f. hasProperty (path f) ?old \<and> JSString (sha f) \<noteq> getProperty ?old (path f)) (files N) =
            filter (\<lambda>f. \<exists>g\<in>set (files P). path g = path f \<and> sha g \<noteq> sha f) (files N)"
    by (rule filter_cong) (simp_all only: classify_conditions(3) [OF dP' kP nk])
  have fn: "filter (\<lambda>f. hasProperty (path f) ?old \<and> JSString (sha f) = getProperty ?old (path f)) (files N) =
            filter (\<lambda>f. \<exists>g\<in>set (files P). path g = path f \<and> sha g = sha f) (files N)"
    by (rule filter_cong) (simp_all only: classify_conditions(2) [OF dP' kP nk])
  have fd: "filter (\<lambda>g. \<not> hasProperty (path g) ?new) (files P) =
            filter (\<lambda>g. path g \<notin> set (manifestPaths N)) (files P)"
    by (rule filter_cong) (simp_all add: classify_conditions(1) [OF dN' kN pk])
  show ?thesis
    by (simp add: cleanOutputUsingManifests_def Let_def foldl_classify foldl_collectDelete
        emptyDiff_def fa fe fn fd)
qed

text \<open>
  C1 (amended). The previous manifest \<open>P\<close> and the new manifest \<open>N\<close> list pairwise-distinct
  paths, none of them the name of a property that an object literal inherits. With no
  previous manifest every path of \<open>N\<close> is an add. Otherwise a path of \<open>N\<close> absent from \<open>P\<close>
  is an add, one present with a different hash an edit, one present with an equal hash a
  noChange; the deletes are the paths of \<open>P\<close> absent from \<open>N\<close> unless patterns are given,
  when there are none. No path is listed twice, and the paths listed are those of
  \<open>P \<union> N\<close>, or with patterns those of \<open>N\<close> alone.
\<close>

theorem cleanOutputUsingManifests_classifies:
  assumes "distinct (manifestPaths P)" and "distinct (manifestPaths N)"
    and "set (manifestPaths P) \<inter> set objectPrototypeKeys = {}"
    and "set (manifestPaths N) \<inter> set objectPrototypeKeys = {}"
  shows "cleanOutputUsingManifests None N opts = emptyDiff\<lparr>adds := manifestPaths N\<rparr> \<and>
    (let d = cleanOutputUsingManifests (Some P) N opts in
       adds d = map path (filter (\<lambda>f. path f \<notin> set (manifestPaths P)) (files N)) \<and>
       edits d = map path (filter (\<lambda>f. \<exists>g\<in>set (files P). path g = path f \<and> sha g \<noteq> sha f) (files N)) \<and>
       noChanges d = map path (filter (\<lambda>f. \<exists>g\<in>set (files P). path g = path f \<and> sha g = sha f) (files N)) \<and>
       deletes d = (if patternsGiven opts then []
                    else map path (filter (\<lambda>g. path g \<notin> set (manifestPaths N)) (files P))) \<and>
       distinct (adds d @ edits d @ noChanges d @ deletes d) \<and>
       set (adds d @ edits d @ noChanges d @ deletes d) =
         (if patternsGiven opts then set (manifestPaths N)
          else set (manifestPaths P) \<union> set (manifestPaths N)))"
proof -
  let ?a = "\<lambda>f. path f \<notin> set (manifestPaths P)"
  let ?e = "\<lambda>f. \<exists>g\<in>set (files P). path g = path f \<and> sha g \<noteq> sha f"
  let ?n = "\<lambda>f. \<exists>g\<in>set (files P). path g = path f \<and> sha g = sha f"
  let ?x = "\<lambda>g. path g \<notin> set (manifestPaths N)"
  let ?new = "map path (filter ?a (files N)) @ map path (filter ?e (files N)) @
              map path (filter ?n (files N))"
  have dP: "distinct (map path (files P))" and dN: "distinct (map path (files N))"
    using assms(1,2) by (simp_all add: manifestPaths_def)
  have none: "cleanOutputUsingManifests None N opts = emptyDiff\<lparr>adds := manifestPaths N\<rparr>"
    by (simp add: cleanOutputUsingManifests_def manifestPaths_def)
  have excl: "\<not> (?a f \<and> ?e f) \<and> \<not> (?a f \<and> ?n f) \<and> \<not> (?e f \<and> ?n f)" for f
  proof -
    have "\<not> (?a f \<and> ?e f)" and "\<not> (?a f \<and> ?n f)"
      using path_in_manifest by blast+
    moreover have "\<not> (?e f \<and> ?n f)"
    proof
      assume "?e f \<and> ?n f"
      then obtain g h where g: "g \<in> set (files P)" "path g = path f" "sha g \<noteq> sha f"
        and h: "h \<in> set (files P)" "path h = path f" "sha h = sha f"
        by blast
      from same_path_same_entry [OF dP g(1) h(1)] g(2) h(2) have "h = g" by simp
      with g(3) h(3) show False by simp
    qed
    ultimately show ?thesis by simp
  qed
  have cover: "?a f \<or> ?e f \<or> ?n f" for f
    using manifest_path_entry by blast
  have dnew: "distinct ?new"
    using dN excl by (rule three_way_split)
  have "set ?new = path ` set (files N)"
    by (rule classified_paths_cover) (rule cover)
  also have "\<dots> = set (manifestPaths N)"
    by (simp add: manifestPaths_def)
  finally have snew: "set ?new = set (manifestPaths N)" .
  have ddel: "distinct (map path (filter ?x (files P)))"
    using dP by (rule distinct_map_filter)
  have sdel: "set (map path (filter ?x (files P))) = set (manifestPaths P) - set (manifestPaths N)"
    unfolding manifestPaths_def by auto
  have dall: "distinct (?new @ map path (filter ?x (files P)))"
    using dnew ddel snew sdel by (simp only: distinct_append) blast
  have sall: "set (?new @ map path (filter ?x (files P))) = set (manifestPaths P) \<union> set (manifestPaths N)"
    using snew sdel by (simp only: set_append) blast
  show ?thesis
    unfolding cleanOutputUsingManifests_lists [OF assms] Let_def
    using none dnew snew dall sall by (simp del: set_append distinct_append set_map map_append)
qed

lemmas diff_eval =
  cleanOutputUsingManifests_def previousManifest_def nextManifest_def manifestOf_def
  manifestPaths_def indexFiles_def classify_def collectDelete_def hasProperty_def
  getProperty_def setProperty_def objectPrototypeKeys_def emptyDiff_def patternsGiven_def
  incrementalOptions_def

theorem cleanOutputUsingManifests_classifies_witness:
  "distinct (manifestPaths previousManifest) \<and> distinct (manifestPaths nextManifest) \<and>
   set (manifestPaths previousManifest) \<inter> set objectPrototypeKeys = {} \<and>
   set (manifestPaths nextManifest) \<inter> set objectPrototypeKeys = {} \<and>
   cleanOutputUsingManifests None nextManifest None =
     \<lparr>adds = [''/index.html'', ''/about/index.html'', ''/blog/index.html''],
      edits = [], noChanges = [], deletes = []\<rparr> \<and>
   cleanOutputUsingManifests (Some previousManifest) nextManifest None =
     \<lparr>adds = [''/blog/index.html''], edits = [''/about/index.html''],
      noChanges = [''/index.html''], deletes = [''/old/index.html'']\<rparr> \<and>
   set (manifestPaths previousManifest) \<union> set (manifestPaths nextManifest) =
     {''/blog/index.html'', ''/about/index.html'', ''/index.html'', ''/old/index.html''}"
proof -
  have h1: "distinct (manifestPaths previousManifest)"
    and h2: "distinct (manifestPaths nextManifest)"
    by (simp_all add: previousManifest_def nextManifest_def manifestOf_def manifestPaths_def)
  have h3: "set (manifestPaths previousManifest) \<inter> set objectPrototypeKeys = {}"
    and h4: "set (manifestPaths nextManifest) \<inter> set objectPrototypeKeys = {}"
    by (simp_all add: previousManifest_def nextManifest_def manifestOf_def manifestPaths_def
        objectPrototypeKeys_def)
  have v: "cleanOutputUsingManifests (Some previousManifest) nextManifest None =
     \<lparr>adds = [''/blog/index.html''], edits = [''/about/index.html''],
      noChanges = [''/index.html''], deletes = [''/old/index.html'']\<rparr>"
    by (simp add: diff_eval)
  have w: "cleanOutputUsingManifests None nextManifest None =
     \<lparr>adds = [''/index.html'', ''/about/index.html'', ''/blog/index.html''],
      edits = [], noChanges = [], deletes = []\<rparr>"
    by (simp add: diff_eval)
  note c = cleanOutputUsingManifests_classifies [OF h1 h2 h3 h4, where opts = None, unfolded Let_def]
  from c
  have "set (adds (cleanOutputUsingManifests (Some previousManifest) nextManifest None) @
             edits (cleanOutputUsingManifests (Some previousManifest) nextManifest None) @
             noChanges (cleanOutputUsingManifests (Some previousManifest) nextManifest None) @
             deletes (cleanOutputUsingManifests (Some previousManifest) nextManifest None)) =
        (if patternsGiven None then set (manifestPaths nextManifest)
         else set (manifestPaths previousManifest) \<union> set (manifestPaths nextManifest))"
    by (elim conjE) assumption
  then have "set (manifestPaths previousManifest) \<union> set (manifestPaths nextManifest) =
     {''/blog/index.html'', ''/about/index.html'', ''/index.html'', ''/old/index.html''}"
    unfolding v by (simp add: patternsGiven_def)
  with h1 h2 h3 h4 v w show ?thesis
    by (simp only: simp_thms)
qed

text \<open>
  The claim as stated fails when patterns are given: a path of the previous manifest that
  the new manifest lacks is then in none of the four lists.
\<close>

theorem unclassified_path_with_patterns:
  "distinct (manifestPaths previousManifest) \<and> distinct (manifestPaths nextManifest) \<and>
   ''/old/index.html'' \<in> set (manifestPaths previousManifest) \<union> set (manifestPaths nextManifest) \<and>
   ''/old/index.html'' \<notin>
     set (adds (cleanOutputUsingManifests (Some previousManifest) nextManifest incrementalOptions)) \<union>
     set (edits (cleanOutputUsingManifests (Some previousManifest) nextManifest incrementalOptions)) \<union>
     set (noChanges (cleanOutputUsingManifests (Some previousManifest) nextManifest incrementalOptions)) \<union>
     set (deletes (cleanOutputUsingManifests (Some previousManifest) nextManifest incrementalOptions))"
proof -
  have "cleanOutputUsingManifests (Some previousManifest) nextManifest incrementalOptions =
     \<lparr>adds = [''/blog/index.html''], edits = [''/about/index.html''],
      noChanges = [''/index.html''], deletes = []\<rparr>"
    by (simp add: diff_eval)
  then show ?thesis
    by (simp add: previousManifest_def nextManifest_def manifestOf_def manifestPaths_def)
qed

text \<open>
  Why inherited names are set apart: \<^verbatim>\<open>'toString' in {}\<close> holds, so a new path of that name
  counts as present in the previous manifest and, its hash differing from the inherited
  function, as an edit; and a previous path of that name is never a delete.
\<close>

lemma inherited_name_is_an_edit:
  "cleanOutputUsingManifests (Some (manifestOf [(''/index.html'', ''aa'')]))
     (manifestOf [(''toString'', ''ee'')]) None =
   \<lparr>adds = [], edits = [''toString''], noChanges = [], deletes = [''/index.html'']\<rparr>"
  by (simp add: diff_eval)

lemma inherited_name_is_no_delete:
  "cleanOutputUsingManifests (Some (manifestOf [(''toString'', ''ee'')]))
     (manifestOf [(''/index.html'', ''aa'')]) None =
   \<lparr>adds = [''/index.html''], edits = [], noChanges = [], deletes = []\<rparr>"
  by (simp add: diff_eval)

section \<open>The runners\<close>

lemma replenish_shape:
  "replenish limit q run tr = (q', run', tr') \<Longrightarrow>
   \<exists>k\<le>length q. q' = drop k q \<and>
     run' = run @ map (\<lambda>t. (resumes t, outcome t)) (take k q) \<and>
     tr' = tr @ concat (map start (take k q)) \<and>
     (q' \<noteq> [] \<longrightarrow> limit \<le> length run')"
proof (induction limit q run tr rule: replenish.induct)
  case (1 limit run tr)
  then show ?case by simp
next
  case (2 limit t q run tr)
  show ?case
  proof (cases "length run < limit")
    case True
    with 2 obtain k where k: "k \<le> length q" "q' = drop k q"
      "run' = (run @ [(resumes t, outcome t)]) @ map (\<lambda>t. (resumes t, outcome t)) (take k q)"
      "tr' = (tr @ start t) @ concat (map start (take k q))"
      "q' \<noteq> [] \<longrightarrow> limit \<le> length run'"
      by auto
    then show ?thesis
      by (intro exI [of _ "Suc k"]) simp
  next
    case False
    with 2 show ?thesis
      by (intro exI [of _ 0]) auto
  qed
qed

lemma owed_append: "owed (xs @ ys) = owed xs @ owed ys"
  by (simp add: owed_def)

lemma owed_launch: "mset (owed (map (\<lambda>t. (resumes t, outcome t)) ts)) + mset (concat (map start ts))
   = mset (concat (map taskEvents ts))"
  by (induction ts) (simp_all add: owed_def taskEvents_def)

lemma failures_append: "failures (xs @ ys) = failures xs + failures ys"
  by (simp add: failures_def)

lemma failures_launch:
  "failures (map (\<lambda>t. (resumes t, outcome t)) ts) = length (filter (\<lambda>t. outcome t \<noteq> None) ts)"
  by (induction ts) (simp_all add: failures_def)

lemma take_add_drop: "take (n + k) xs = take n xs @ take k (drop n xs)"
  by (simp add: take_add)

lemma launched_replenishPool:
  assumes "launched tasks n p"
  shows "\<exists>n'. launched tasks n' (replenishPool limit p) \<and> saturated limit (replenishPool limit p)"
proof -
  obtain q run tr where r: "replenish limit (queue p) (running p) (trace p) = (q, run, tr)"
    by (cases "replenish limit (queue p) (running p) (trace p)")
  from replenish_shape [OF r] obtain k where k: "k \<le> length (queue p)" "q = drop k (queue p)"
    "run = running p @ map (\<lambda>t. (resumes t, outcome t)) (take k (queue p))"
    "tr = trace p @ concat (map start (take k (queue p)))"
    "q \<noteq> [] \<longrightarrow> limit \<le> length run"
    by blast
  let ?p = "replenishPool limit p"
  have p: "queue ?p = q" "running ?p = run" "trace ?p = tr" "firstError ?p = firstError p"
    using r by (simp_all add: replenishPool_def)
  from assms have n: "n \<le> length tasks" "queue p = drop n tasks"
    and m: "mset (trace p) + mset (owed (running p)) = mset (concat (map taskEvents (take n tasks)))"
    and f: "firstError p = None \<longrightarrow>
        length (filter (\<lambda>t. outcome t \<noteq> None) (take n tasks)) = failures (running p)"
    by (simp_all add: launched_def)
  let ?new = "take k (queue p)"
  have tk: "take (n + k) tasks = take n tasks @ ?new"
    by (simp add: n(2) take_add)
  have "mset tr + mset (owed run) =
        (mset (trace p) + mset (owed (running p))) +
        (mset (owed (map (\<lambda>t. (resumes t, outcome t)) ?new)) + mset (concat (map start ?new)))"
    by (simp add: k owed_append)
  also have "\<dots> = mset (concat (map taskEvents (take (n + k) tasks)))"
    by (simp add: m owed_launch tk)
  finally have m': "mset tr + mset (owed run) = mset (concat (map taskEvents (take (n + k) tasks)))" .
  have f': "firstError p = None \<longrightarrow>
        length (filter (\<lambda>t. outcome t \<noteq> None) (take (n + k) tasks)) = failures run"
    using f by (simp add: tk k(3) failures_append failures_launch)
  have "n + k \<le> length tasks"
    using k(1) n by simp
  moreover have "q = drop (n + k) tasks"
    using k(2) n(2) by (simp add: add.commute)
  ultimately have "launched tasks (n + k) ?p"
    using m' f' by (simp add: launched_def p)
  moreover have "saturated limit ?p"
    using k(5) by (simp add: saturated_def p)
  ultimately show ?thesis by blast
qed

lemma nth_split: "i < length xs \<Longrightarrow> xs = take i xs @ xs ! i # drop (Suc i) xs"
  by (simp add: id_take_nth_drop)

lemma owed_resume:
  assumes "i < length run" and "run ! i = (seg # rest, out)"
  shows "mset seg + mset (owed (run[i := (rest, out)])) = mset (owed run)"
proof -
  have u: "run[i := (rest, out)] = take i run @ (rest, out) # drop (Suc i) run"
    using assms(1) by (simp add: upd_conv_take_nth_drop)
  have "owed run = owed (take i run @ (seg # rest, out) # drop (Suc i) run)"
    using nth_split [OF assms(1)] assms(2) by simp
  then show ?thesis
    unfolding u by (simp add: owed_def)
qed

lemma owed_settle:
  assumes "i < length run" and "run ! i = ([], out)"
  shows "owed (take i run @ drop (Suc i) run) = owed run"
proof -
  have "owed run = owed (take i run @ ([], out) # drop (Suc i) run)"
    using nth_split [OF assms(1)] assms(2) by simp
  then show ?thesis
    by (simp add: owed_def)
qed

lemma failures_resume:
  assumes "i < length run" and "run ! i = (seg # rest, out)"
  shows "failures (run[i := (rest, out)]) = failures run"
proof -
  have u: "run[i := (rest, out)] = take i run @ (rest, out) # drop (Suc i) run"
    using assms(1) by (simp add: upd_conv_take_nth_drop)
  have "failures run = failures (take i run @ (seg # rest, out) # drop (Suc i) run)"
    using nth_split [OF assms(1)] assms(2) by simp
  then show ?thesis
    unfolding u by (simp add: failures_def)
qed

lemma failures_settle:
  assumes "i < length run" and "run ! i = ([], None)"
  shows "failures (take i run @ drop (Suc i) run) = failures run"
proof -
  have "failures run = failures (take i run @ ([], None) # drop (Suc i) run)"
    using nth_split [OF assms(1)] assms(2) by simp
  then show ?thesis
    by (simp add: failures_def)
qed

lemma launched_advance:
  assumes l: "launched tasks n p" and s: "saturated limit p" and i: "i < length (running p)"
  shows "\<exists>n'. launched tasks n' (advance limit i p) \<and> saturated limit (advance limit i p)"
proof (cases "running p ! i")
  case (Pair segs out)
  from l have n: "n \<le> length tasks" "queue p = drop n tasks"
    and m: "mset (trace p) + mset (owed (running p)) = mset (concat (map taskEvents (take n tasks)))"
    and f: "firstError p = None \<longrightarrow>
        length (filter (\<lambda>t. outcome t \<noteq> None) (take n tasks)) = failures (running p)"
    by (simp_all add: launched_def)
  show ?thesis
  proof (cases segs)
    case (Cons seg rest)
    let ?p = "p\<lparr>running := (running p)[i := (rest, out)], trace := trace p @ seg\<rparr>"
    have a: "advance limit i p = ?p"
      using Pair Cons by (simp add: advance_def)
    have r: "running p ! i = (seg # rest, out)"
      using Pair Cons by simp
    have "mset (trace ?p) + mset (owed (running ?p)) =
          mset (trace p) + (mset seg + mset (owed ((running p)[i := (rest, out)])))"
      by simp
    also have "\<dots> = mset (trace p) + mset (owed (running p))"
      by (simp only: owed_resume [OF i r])
    finally have "mset (trace ?p) + mset (owed (running ?p)) =
          mset (concat (map taskEvents (take n tasks)))"
      using m by simp
    with n f have "launched tasks n ?p"
      by (simp add: launched_def failures_resume [OF i r])
    moreover have "saturated limit ?p"
      using s by (simp add: saturated_def)
    ultimately show ?thesis
      unfolding a by blast
  next
    case Nil
    let ?p = "p\<lparr>running := take i (running p) @ drop (Suc i) (running p)\<rparr>"
    have r: "running p ! i = ([], out)"
      using Pair Nil by simp
    have m': "mset (trace ?p) + mset (owed (running ?p)) =
          mset (concat (map taskEvents (take n tasks)))"
      using m by (simp add: owed_settle [OF i r])
    show ?thesis
    proof (cases "firstError p")
      case (Some e)
      then have a: "advance limit i p = ?p"
        using r by (simp add: advance_def)
      have "launched tasks n ?p"
        using n m' Some by (simp add: launched_def)
      moreover have "saturated limit ?p"
        using Some by (simp add: saturated_def)
      ultimately show ?thesis
        unfolding a by blast
    next
      case None
      show ?thesis
      proof (cases out)
        case (Some e)
        then have a: "advance limit i p = ?p\<lparr>firstError := Some e\<rparr>"
          using r None by (simp add: advance_def)
        have "launched tasks n (?p\<lparr>firstError := Some e\<rparr>)"
          using n m' by (simp add: launched_def)
        moreover have "saturated limit (?p\<lparr>firstError := Some e\<rparr>)"
          by (simp add: saturated_def)
        ultimately show ?thesis
          unfolding a by blast
      next
        case out: None
        then have a: "advance limit i p = replenishPool limit ?p"
          using r None by (simp add: advance_def)
        have "failures (running ?p) = failures (running p)"
          using failures_settle [OF i] r out by simp
        with n m' f have "launched tasks n ?p"
          by (simp add: launched_def)
        from launched_replenishPool [OF this] show ?thesis
          unfolding a .
      qed
    qed
  qed
qed

lemma runPool_done: "running p = [] \<Longrightarrow> runPool limit sched p = p"
  by (subst runPool.simps) simp

lemma runPool_Nil:
  "running p \<noteq> [] \<Longrightarrow> runPool limit [] p = runPool limit [] (advance limit 0 p)"
  by (subst runPool.simps) simp

lemma runPool_Cons:
  "running p \<noteq> [] \<Longrightarrow>
   runPool limit (k # ks) p = runPool limit ks (advance limit (k mod length (running p)) p)"
  by (subst runPool.simps) simp

lemma launched_runPool:
  assumes "launched tasks n p" and "saturated limit p"
  shows "\<exists>n'. launched tasks n' (runPool limit sched p) \<and> saturated limit (runPool limit sched p) \<and>
              running (runPool limit sched p) = []"
  using assms
proof (induction limit sched p arbitrary: n rule: runPool.induct)
  case (1 limit sched p)
  show ?case
  proof (cases "running p = []")
    case True
    with 1(3,4) show ?thesis
      by (auto simp only: runPool_done [OF True])
  next
    case False
    show ?thesis
    proof (cases sched)
      case Nil
      from False have "0 < length (running p)" by simp
      from launched_advance [OF 1(3) 1(4) this]
      obtain n' where "launched tasks n' (advance limit 0 p)" "saturated limit (advance limit 0 p)"
        by blast
      from 1(1) [OF False Nil this] show ?thesis
        unfolding Nil runPool_Nil [OF False] .
    next
      case (Cons k ks)
      from False have "k mod length (running p) < length (running p)" by simp
      from launched_advance [OF 1(3) 1(4) this]
      obtain n' where "launched tasks n' (advance limit (k mod length (running p)) p)"
        "saturated limit (advance limit (k mod length (running p)) p)"
        by blast
      from 1(2) [OF False Cons this] show ?thesis
        unfolding Cons runPool_Cons [OF False] .
    qed
  qed
qed

lemma runLimit_launched:
  "\<exists>n. launched tasks n (runLimit limit sched tasks) \<and> saturated limit (runLimit limit sched tasks) \<and>
        running (runLimit limit sched tasks) = []"
proof -
  let ?p0 = "\<lparr>queue = tasks, running = [], firstError = None, trace = []\<rparr>"
  have "launched tasks 0 ?p0"
    by (simp add: launched_def owed_def failures_def)
  from launched_replenishPool [OF this]
  obtain n where "launched tasks n (replenishPool limit ?p0)" "saturated limit (replenishPool limit ?p0)"
    by blast
  then show ?thesis
    unfolding runLimit_def by (rule launched_runPool)
qed

text \<open>What a run of a runner comes to.\<close>

lemma runLimit_sound:
  assumes "0 < limit"
  shows "\<exists>n\<le>length tasks.
           queue (runLimit limit sched tasks) = drop n tasks \<and>
           running (runLimit limit sched tasks) = [] \<and>
           mset (trace (runLimit limit sched tasks)) = mset (concat (map taskEvents (take n tasks))) \<and>
           (firstError (runLimit limit sched tasks) = None \<longrightarrow>
              n = length tasks \<and> (\<forall>t\<in>set tasks. outcome t = None))"
proof -
  let ?p = "runLimit limit sched tasks"
  from runLimit_launched obtain n where l: "launched tasks n ?p" and s: "saturated limit ?p"
    and r: "running ?p = []"
    by blast
  from l r have n: "n \<le> length tasks" "queue ?p = drop n tasks"
    and m: "mset (trace ?p) = mset (concat (map taskEvents (take n tasks)))"
    and f: "firstError ?p = None \<longrightarrow> filter (\<lambda>t. outcome t \<noteq> None) (take n tasks) = []"
    by (simp_all add: launched_def owed_def failures_def)
  have "n = length tasks \<and> (\<forall>t\<in>set tasks. outcome t = None)" if ok: "firstError ?p = None"
  proof -
    from s ok r assms have "queue ?p = []"
      by (auto simp: saturated_def)
    with n have full: "n = length tasks" by simp
    with f ok have "filter (\<lambda>t. outcome t \<noteq> None) tasks = []" by simp
    then have "\<forall>t\<in>set tasks. outcome t = None"
      by (simp add: filter_empty_conv)
    with full show ?thesis by simp
  qed
  with n r m show ?thesis
    by (intro exI [of _ n]) simp
qed

lemma tasksOf_map: "tasksOf f cps = map (\<lambda>i. f i (cps ! i)) [0..<length cps]"
  by (rule nth_equalityI) (simp_all add: tasksOf_def nth_enumerate_eq)

lemma tasksOf_nth:
  "t \<in> set (tasksOf f cps) \<longleftrightarrow> (\<exists>i<length cps. t = f i (cps ! i))"
  by (auto simp: tasksOf_map)



lemma stagingTask_events:
  assumes "e \<in> set (taskEvents (stagingTask w i cp))"
  shows "\<not> isDeletion e" and "\<not> isPersisting e" and "\<not> isPromotion e"
  using assms
  by (auto simp: stagingTask_def taskEvents_def bookkeeping_def split: if_splits option.splits sum.splits)

lemma movingTask_events:
  assumes "e \<in> set (taskEvents (movingTask w b i cp))"
  shows "\<not> isDeletion e" and "\<not> isPersisting e"
  using assms
  by (auto simp: movingTask_def taskEvents_def hashed_def counted_def moveTick_def
      split: if_splits option.splits sum.splits)

lemma runLimit_events:
  assumes "0 < limit" and "e \<in> set (trace (runLimit limit sched tasks))"
  shows "\<exists>t\<in>set tasks. e \<in> set (taskEvents t)"
proof -
  from runLimit_sound [OF assms(1), of tasks sched] obtain n
    where "mset (trace (runLimit limit sched tasks)) = mset (concat (map taskEvents (take n tasks)))"
    by blast
  then have "set (trace (runLimit limit sched tasks)) = set (concat (map taskEvents (take n tasks)))"
    by (rule mset_eq_setD)
  with assms(2) obtain t where "t \<in> set (take n tasks)" "e \<in> set (taskEvents t)"
    by auto
  then show ?thesis
    by (meson in_set_takeD)
qed

lemma staging_run_events:
  assumes "e \<in> set (trace (stagingRun w cps))"
  shows "\<not> isDeletion e" and "\<not> isPersisting e" and "\<not> isPromotion e"
proof -
  have "0 < NumConcurrentBuilds" by (simp add: NumConcurrentBuilds_def)
  from runLimit_events [OF this assms [unfolded stagingRun_def]] obtain t
    where "t \<in> set (tasksOf (stagingTask w) cps)" "e \<in> set (taskEvents t)"
    by blast
  then obtain i where "e \<in> set (taskEvents (stagingTask w i (cps ! i)))"
    by (auto simp: tasksOf_nth)
  then show "\<not> isDeletion e" and "\<not> isPersisting e" and "\<not> isPromotion e"
    by (rule stagingTask_events)+
qed

lemma moving_run_events:
  assumes "e \<in> set (trace (movingRun w b cps))"
  shows "\<not> isDeletion e" and "\<not> isPersisting e"
proof -
  have "0 < NumConcurrentCopies" by (simp add: NumConcurrentCopies_def)
  from runLimit_events [OF this assms [unfolded movingRun_def]] obtain t
    where "t \<in> set (tasksOf (movingTask w b) cps)" "e \<in> set (taskEvents t)"
    by blast
  then obtain i where "e \<in> set (taskEvents (movingTask w b i (cps ! i)))"
    by (auto simp: tasksOf_nth)
  then show "\<not> isDeletion e" and "\<not> isPersisting e"
    by (rule movingTask_events)+
qed

lemma deletes_with_patterns:
  "patternsGiven options \<Longrightarrow> deletes (cleanOutputUsingManifests existing new options) = []"
  by (cases existing) (simp_all add: cleanOutputUsingManifests_def emptyDiff_def foldl_classify Let_def)

lemma report_keeps:
  "snd (report w result t) = Inr r \<Longrightarrow> r = result"
  by (simp add: report_def split: option.splits)

lemma report_no_deletion:
  "\<forall>e\<in>set t. \<not> isDeletion e \<Longrightarrow> \<forall>e\<in>set (fst (report w result t)). \<not> isDeletion e"
  by (auto simp: report_def split: option.splits)

lemma cleanUp_incremental:
  assumes "patternsGiven options"
  shows "cleanUp w options m ms t =
         report w \<lparr>metrics = ms, manifest = m,
                   diff = cleanOutputUsingManifests (existingManifest (pod w)) m options\<rparr> t"
  using assms by (simp add: cleanUp_def Let_def)

lemma cleanUp_no_deletion:
  assumes "patternsGiven options" and "\<forall>e\<in>set t. \<not> isDeletion e"
  shows "\<forall>e\<in>set (fst (cleanUp w options m ms t)). \<not> isDeletion e"
    and "snd (cleanUp w options m ms t) = Inr r \<Longrightarrow> deletes (diff r) = []"
proof -
  show "\<forall>e\<in>set (fst (cleanUp w options m ms t)). \<not> isDeletion e"
    unfolding cleanUp_incremental [OF assms(1)] using assms(2) by (rule report_no_deletion)
  assume "snd (cleanUp w options m ms t) = Inr r"
  then have "r = \<lparr>metrics = ms, manifest = m,
                   diff = cleanOutputUsingManifests (existingManifest (pod w)) m options\<rparr>"
    unfolding cleanUp_incremental [OF assms(1)] by (rule report_keeps)
  then show "deletes (diff r) = []"
    using deletes_with_patterns [OF assms(1)] by simp
qed

lemma persist_no_deletion:
  assumes "patternsGiven options" and "\<forall>e\<in>set t. \<not> isDeletion e"
  shows "\<forall>e\<in>set (fst (persist w options b moved t)). \<not> isDeletion e"
    and "snd (persist w options b moved t) = Inr r \<Longrightarrow> deletes (diff r) = []"
proof -
  let ?t1 = "t @ (if b then [MoveBarStop] else []) @ [DeleteDirectoryRecursive (tempDirRoot (platform w))]"
  let ?m = "\<lparr>branch = None, built = now (platform w), commit = None, files = pushedFiles moved\<rparr>"
  let ?t2 = "?t1 @ [WriteManifest (getAbsoluteFilePath (pod w) (manifestPodPath w)) ?m,
                    WriteMetrics (getAbsoluteFilePath (pod w) (metricsPodPath w)) (finalMetrics w moved)]"
  have t2: "\<forall>e\<in>set ?t2. \<not> isDeletion e"
    using assms(2) by auto
  note c = cleanUp_no_deletion [OF assms(1) t2, of w ?m "finalMetrics w moved"]
  show "\<forall>e\<in>set (fst (persist w options b moved t)). \<not> isDeletion e"
    using c(1) t2 by (auto simp: persist_def Let_def split: option.splits)
  assume "snd (persist w options b moved t) = Inr r"
  then have "snd (cleanUp w options ?m (finalMetrics w moved) ?t2) = Inr r"
    by (auto simp: persist_def Let_def split: option.splits)
  then show "deletes (diff r) = []"
    by (rule c(2))
qed

lemma promote_no_deletion:
  assumes "patternsGiven options" and "\<forall>e\<in>set t. \<not> isDeletion e"
  shows "\<forall>e\<in>set (fst (promote w options cps staged t)). \<not> isDeletion e"
    and "snd (promote w options cps staged t) = Inr r \<Longrightarrow> deletes (diff r) = []"
proof -
  define b where "b = (ShowMoveProgressBarThreshold \<le> length (pushedArtifacts staged))"
  define t1 where "t1 = t @ [BarStop] @ (if b then [MoveBarStart (length (pushedArtifacts staged))] else [])"
  define p where "p = movingRun w b cps"
  have eq: "promote w options cps staged t =
     (case firstError p of
        Some e \<Rightarrow> (t1 @ trace p, Inl (Promotion, e))
      | None \<Rightarrow> persist w options b (trace p) (t1 @ trace p))"
    by (simp only: promote_def Let_def b_def t1_def p_def)
  have "\<forall>e\<in>set t1. \<not> isDeletion e"
    using assms(2) by (auto simp: t1_def)
  moreover have "\<forall>e\<in>set (trace p). \<not> isDeletion e"
    unfolding p_def using moving_run_events(1) by blast
  ultimately have t1: "\<forall>e\<in>set (t1 @ trace p). \<not> isDeletion e"
    by auto
  note c = persist_no_deletion [OF assms(1) t1, of w b "trace p"]
  show "\<forall>e\<in>set (fst (promote w options cps staged t)). \<not> isDeletion e"
  proof (cases "firstError p")
    case None
    then show ?thesis unfolding eq using c(1) by simp
  next
    case (Some e)
    then show ?thesis unfolding eq using t1 by simp
  qed
  assume r: "snd (promote w options cps staged t) = Inr r"
  show "deletes (diff r) = []"
  proof (cases "firstError p")
    case None
    with r have "snd (persist w options b (trace p) (t1 @ trace p)) = Inr r"
      unfolding eq by simp
    then show ?thesis by (rule c(2))
  next
    case (Some e)
    with r show ?thesis unfolding eq by simp
  qed
qed

lemma stage_no_deletion:
  assumes "patternsGiven options" and "\<forall>e\<in>set t. \<not> isDeletion e"
  shows "\<forall>e\<in>set (fst (stage w options cps t)). \<not> isDeletion e"
    and "snd (stage w options cps t) = Inr r \<Longrightarrow> deletes (diff r) = []"
proof -
  define p where "p = stagingRun w cps"
  have eq: "stage w options cps t =
     (case firstError p of
        Some e \<Rightarrow> (t @ trace p, Inl (Staging, e))
      | None \<Rightarrow> promote w options cps (trace p) (t @ trace p))"
    by (simp only: stage_def Let_def p_def)
  have "\<forall>e\<in>set (trace p). \<not> isDeletion e"
    unfolding p_def using staging_run_events(1) by blast
  with assms(2) have t1: "\<forall>e\<in>set (t @ trace p). \<not> isDeletion e"
    by auto
  note c = promote_no_deletion [OF assms(1) t1, of w cps "trace p"]
  show "\<forall>e\<in>set (fst (stage w options cps t)). \<not> isDeletion e"
  proof (cases "firstError p")
    case None
    then show ?thesis unfolding eq using c(1) by simp
  next
    case (Some e)
    then show ?thesis unfolding eq using t1 by simp
  qed
  assume r: "snd (stage w options cps t) = Inr r"
  show "deletes (diff r) = []"
  proof (cases "firstError p")
    case None
    with r have "snd (promote w options cps (trace p) (t @ trace p)) = Inr r"
      unfolding eq by simp
    then show ?thesis by (rule c(2))
  next
    case (Some e)
    with r show ?thesis unfolding eq by simp
  qed
qed

lemma export_no_deletion:
  assumes "patternsGiven options"
  shows "\<forall>e\<in>set (fst (export w options)). \<not> isDeletion e"
    and "snd (export w options) = Inr r \<Longrightarrow> deletes (diff r) = []"
proof -
  let ?cps = "createdPaths w options"
  have t: "\<forall>e\<in>set (preparation w options). \<not> isDeletion e"
    by (simp add: preparation_def)
  note c = stage_no_deletion [OF assms t, of w ?cps]
  show "\<forall>e\<in>set (fst (export w options)). \<not> isDeletion e"
    using c(1) t by (simp add: export_def split: option.splits)
  assume "snd (export w options) = Inr r"
  then have "snd (stage w options ?cps (preparation w options)) = Inr r"
    by (simp add: export_def split: option.splits if_splits)
  then show "deletes (diff r) = []"
    by (rule c(2))
qed

text \<open>
  C2. When \<^verbatim>\<open>options.patterns\<close> is set, the diff an export returns has no deletes, and the
  export unlinks no file and removes no directory of the output, whatever the previous
  manifest lists.
\<close>

theorem export_with_patterns_deletes_nothing:
  assumes "options = Some opts" and "patterns opts = Some ps"
  shows "(\<forall>r. snd (export w options) = Inr r \<longrightarrow> deletes (diff r) = []) \<and>
         (\<forall>p. Unlink p \<notin> set (fst (export w options))) \<and>
         (\<forall>p. Rmdir p \<notin> set (fst (export w options)))"
proof -
  have g: "patternsGiven options"
    using assms by (simp add: patternsGiven_def)
  have "Unlink p \<notin> set (fst (export w options))" and "Rmdir p \<notin> set (fst (export w options))" for p
    using export_no_deletion(1) [OF g, of w] by force+
  with export_no_deletion(2) [OF g] show ?thesis
    by blast
qed

theorem export_with_patterns_deletes_nothing_witness:
  "pagesOnly = Some \<lparr>patterns = Some [''/content/a.md'']\<rparr> \<and>
   patterns \<lparr>patterns = Some [''/content/a.md'']\<rparr> = Some [''/content/a.md''] \<and>
   ''/old.html'' \<in> set (map path (files (the (existingManifest (pod exampleWorld))))) \<and>
   \<not> isl (snd (export exampleWorld pagesOnly)) \<and>
   manifestPaths (manifest (projr (snd (export exampleWorld pagesOnly)))) = [''/a/index.html''] \<and>
   deletes (diff (projr (snd (export exampleWorld pagesOnly)))) = [] \<and>
   (\<forall>p. Unlink p \<notin> set (fst (export exampleWorld pagesOnly))) \<and>
   (\<forall>p. Rmdir p \<notin> set (fst (export exampleWorld pagesOnly)))"
proof -
  have h1: "pagesOnly = Some \<lparr>patterns = Some [''/content/a.md'']\<rparr>"
    by (simp add: pagesOnly_def)
  have h2: "patterns \<lparr>patterns = Some [''/content/a.md'']\<rparr> = Some [''/content/a.md'']"
    by simp
  have a: "''/old.html'' \<in> set (map path (files (the (existingManifest (pod exampleWorld)))))"
    by code_simp
  have b: "\<not> isl (snd (export exampleWorld pagesOnly))"
    by code_simp
  have c: "manifestPaths (manifest (projr (snd (export exampleWorld pagesOnly)))) = [''/a/index.html'']"
    by code_simp
  from b obtain r where r: "snd (export exampleWorld pagesOnly) = Inr r"
    by (cases "snd (export exampleWorld pagesOnly)") auto
  note t = export_with_patterns_deletes_nothing [OF h1 h2, of exampleWorld]
  from t r have "deletes (diff (projr (snd (export exampleWorld pagesOnly)))) = []"
    by simp
  with h1 h2 a b c t show ?thesis
    by (simp only: simp_thms)
qed

section \<open>The course of an export\<close>

lemma export_hook_failed:
  "beforeBuild (pod w) = Some e \<Longrightarrow>
   export w options = ([TriggerHook ''beforeBuild''], Inl (BeforeBuild, e))"
  by (simp add: export_def)

lemma export_nothing:
  "beforeBuild (pod w) = None \<Longrightarrow> selectedRoutes w options = [] \<Longrightarrow>
   export w options = (preparation w options, Inl (RouteCheck, nothingToBuild w))"
  by (simp add: export_def)

lemma export_staged:
  "beforeBuild (pod w) = None \<Longrightarrow> selectedRoutes w options \<noteq> [] \<Longrightarrow>
   export w options = stage w options (createdPaths w options) (preparation w options)"
  by (simp add: export_def)

lemma stage_failed:
  "firstError (stagingRun w cps) = Some e \<Longrightarrow>
   stage w options cps t = (t @ trace (stagingRun w cps), Inl (Staging, e))"
  by (simp add: stage_def Let_def)

lemma stage_promoted:
  "firstError (stagingRun w cps) = None \<Longrightarrow>
   stage w options cps t =
   promote w options cps (trace (stagingRun w cps)) (t @ trace (stagingRun w cps))"
  by (simp add: stage_def Let_def)

lemma promote_failed:
  "firstError (movingRun w (showsMoveBar staged) cps) = Some e \<Longrightarrow>
   promote w options cps staged t =
   (t @ moveBarStart staged @ trace (movingRun w (showsMoveBar staged) cps), Inl (Promotion, e))"
  by (simp add: promote_def showsMoveBar_def moveBarStart_def Let_def)

lemma promote_persisted:
  "firstError (movingRun w (showsMoveBar staged) cps) = None \<Longrightarrow>
   promote w options cps staged t =
   persist w options (showsMoveBar staged) (trace (movingRun w (showsMoveBar staged) cps))
     (t @ moveBarStart staged @ trace (movingRun w (showsMoveBar staged) cps))"
  by (simp add: promote_def showsMoveBar_def moveBarStart_def Let_def)

lemma persist_removal_failed:
  "tempDirRemoval w = Some e \<Longrightarrow>
   persist w options b moved t = (t @ tempRemoval w b, Inl (TempCleanup, e))"
  by (simp add: persist_def tempRemoval_def Let_def)

lemma persist_write_failed:
  "tempDirRemoval w = None \<Longrightarrow> manifestWritten w = Some e \<or> (manifestWritten w = None \<and> metricsWritten w = Some e) \<Longrightarrow>
   persist w options b moved t = (t @ tempRemoval w b @ persistWrites w moved, Inl (Persisting, e))"
  by (auto simp: persist_def tempRemoval_def persistWrites_def newManifest_def Let_def)

lemma persist_cleaned:
  "tempDirRemoval w = None \<Longrightarrow> manifestWritten w = None \<Longrightarrow> metricsWritten w = None \<Longrightarrow>
   persist w options b moved t =
   cleanUp w options (newManifest w moved) (finalMetrics w moved)
     (t @ tempRemoval w b @ persistWrites w moved)"
  by (simp add: persist_def tempRemoval_def persistWrites_def newManifest_def Let_def)

lemma cleanUp_skipped:
  "patternsGiven options \<Longrightarrow>
   cleanUp w options (newManifest w moved) (finalMetrics w moved) t =
   report w (newResult w options moved) t"
  by (simp add: cleanUp_def newResult_def newDiff_def Let_def)

lemma cleanUp_failed:
  "\<not> patternsGiven options \<Longrightarrow>
   deleteOutputFiles w 0 (deletes (newDiff w options moved)) = (ev, Some e) \<Longrightarrow>
   cleanUp w options (newManifest w moved) (finalMetrics w moved) t = (t @ ev, Inl (StaleCleanup, e))"
  by (simp add: cleanUp_def newDiff_def Let_def)

lemma cleanUp_done:
  "\<not> patternsGiven options \<Longrightarrow>
   deleteOutputFiles w 0 (deletes (newDiff w options moved)) = (ev, None) \<Longrightarrow>
   cleanUp w options (newManifest w moved) (finalMetrics w moved) t =
   report w (newResult w options moved) (t @ ev)"
  by (simp add: cleanUp_def newResult_def newDiff_def Let_def)

lemma report_failed:
  "afterBuild (pod w) result = Some e \<Longrightarrow>
   report w result t =
   (t @ [LogResult (diff result) (metrics result), TriggerHook ''afterBuild''], Inl (AfterBuild, e))"
  by (simp add: report_def)

lemma report_returned:
  "afterBuild (pod w) result = None \<Longrightarrow>
   report w result t =
   (t @ [LogResult (diff result) (metrics result), TriggerHook ''afterBuild''], Inr result)"
  by (simp add: report_def)














text \<open>
  C3 (amended). For a path in the list of deletes: when the deletion fails because the file
  is absent (\<^verbatim>\<open>errno\<close> is -2), a warning is logged and the cleanup goes on, with the parent
  directory and then with the next path; when it fails for any other reason the error is
  thrown again, with no warning: the paths after it are not processed, and the export
  fails with that error.
\<close>

theorem deleteOutputFiles_failed_unlink:
  "(unlinkOutcome (deletion w n) = Some err \<and> errno err = Some (-2) \<longrightarrow>
      deleteOutputFiles w n (outputPath # rest) =
        (case pruneDirectory (deletion w n) (dirname (platform w) (absoluteOutputPath w outputPath)) of
           (ev, Some e) \<Rightarrow>
             (Unlink (absoluteOutputPath w outputPath) # ConsoleWarn (absoluteOutputPath w outputPath) # ev,
              Some e)
         | (ev, None) \<Rightarrow>
             (Unlink (absoluteOutputPath w outputPath) # ConsoleWarn (absoluteOutputPath w outputPath) # ev
                @ fst (deleteOutputFiles w (Suc n) rest),
              snd (deleteOutputFiles w (Suc n) rest)))) \<and>
   (unlinkOutcome (deletion w n) = Some err \<and> errno err \<noteq> Some (-2) \<longrightarrow>
      deleteOutputFiles w n (outputPath # rest) = ([Unlink (absoluteOutputPath w outputPath)], Some err)) \<and>
   (\<not> patternsGiven options \<and>
    snd (deleteOutputFiles w 0
           (deletes (cleanOutputUsingManifests (existingManifest (pod w)) m options))) = Some e \<longrightarrow>
      snd (cleanUp w options m ms t) = Inl (StaleCleanup, e))"
proof (intro conjI impI)
  assume "unlinkOutcome (deletion w n) = Some err \<and> errno err = Some (-2)"
  then show "deleteOutputFiles w n (outputPath # rest) =
        (case pruneDirectory (deletion w n) (dirname (platform w) (absoluteOutputPath w outputPath)) of
           (ev, Some e) \<Rightarrow>
             (Unlink (absoluteOutputPath w outputPath) # ConsoleWarn (absoluteOutputPath w outputPath) # ev,
              Some e)
         | (ev, None) \<Rightarrow>
             (Unlink (absoluteOutputPath w outputPath) # ConsoleWarn (absoluteOutputPath w outputPath) # ev
                @ fst (deleteOutputFiles w (Suc n) rest),
              snd (deleteOutputFiles w (Suc n) rest)))"
    by (cases "pruneDirectory (deletion w n) (dirname (platform w) (absoluteOutputPath w outputPath))")
       (auto simp: deleteOutputFile_def absoluteOutputPath_def Let_def split: option.splits prod.splits)
next
  assume "unlinkOutcome (deletion w n) = Some err \<and> errno err \<noteq> Some (-2)"
  then show "deleteOutputFiles w n (outputPath # rest) = ([Unlink (absoluteOutputPath w outputPath)], Some err)"
    by (simp add: deleteOutputFile_def absoluteOutputPath_def Let_def)
next
  assume a: "\<not> patternsGiven options \<and>
    snd (deleteOutputFiles w 0
           (deletes (cleanOutputUsingManifests (existingManifest (pod w)) m options))) = Some e"
  then show "snd (cleanUp w options m ms t) = Inl (StaleCleanup, e)"
    by (cases "deleteOutputFiles w 0
           (deletes (cleanOutputUsingManifests (existingManifest (pod w)) m options))")
       (simp add: cleanUp_def Let_def)
qed

theorem deleteOutputFiles_failed_unlink_witness:
  "unlinkOutcome (deletion goneWorld 0) = Some ENOENT \<and> errno ENOENT = Some (-2) \<and>
   deleteOutputFiles goneWorld 0 [''/old.html''] =
     ([Unlink ''/site/build/old.html'', ConsoleWarn ''/site/build/old.html'',
       ExistsSync ''/site/build'', Readdir ''/site/build''], None) \<and>
   unlinkOutcome (deletion lockedWorld 0) = Some EACCES \<and> errno EACCES \<noteq> Some (-2) \<and>
   deleteOutputFiles lockedWorld 0 [''/old.html'', ''/older.html''] =
     ([Unlink ''/site/build/old.html''], Some EACCES) \<and>
   \<not> patternsGiven None \<and>
   snd (cleanUp lockedWorld None builtManifest emptyMetrics []) = Inl (StaleCleanup, EACCES)"
proof -
  have a: "unlinkOutcome (deletion goneWorld 0) = Some ENOENT \<and> errno ENOENT = Some (-2)"
    by code_simp
  have b: "unlinkOutcome (deletion lockedWorld 0) = Some EACCES \<and> errno EACCES \<noteq> Some (-2)"
    by code_simp
  have c: "\<not> patternsGiven None \<and>
    snd (deleteOutputFiles lockedWorld 0
           (deletes (cleanOutputUsingManifests (existingManifest (pod lockedWorld)) builtManifest None)))
      = Some EACCES"
    by code_simp
  have d: "pruneDirectory (deletion goneWorld 0)
             (dirname (platform goneWorld) ''/site/build/old.html'') =
           ([ExistsSync ''/site/build'', Readdir ''/site/build''], None)"
    by code_simp
  have e: "absoluteOutputPath goneWorld ''/old.html'' = ''/site/build/old.html''"
    "absoluteOutputPath lockedWorld ''/old.html'' = ''/site/build/old.html''"
    by code_simp+
  note t1 = deleteOutputFiles_failed_unlink [of goneWorld 0 ENOENT "''/old.html''" "[]",
      THEN conjunct1, rule_format, OF a]
  note t2 = deleteOutputFiles_failed_unlink [of lockedWorld 0 EACCES "''/old.html''" "[''/older.html'']",
      THEN conjunct2, THEN conjunct1, rule_format, OF b]
  note t3 = deleteOutputFiles_failed_unlink [of lockedWorld 0 EACCES "''/old.html''" "[]" None
      builtManifest EACCES emptyMetrics "[]",
      THEN conjunct2, THEN conjunct2, rule_format, OF c]
  from t1 [unfolded e d] have "deleteOutputFiles goneWorld 0 [''/old.html''] =
     ([Unlink ''/site/build/old.html'', ConsoleWarn ''/site/build/old.html'',
       ExistsSync ''/site/build'', Readdir ''/site/build''], None)"
    by (simp del: deleteOutputFiles.simps(2))
  with a b c t2 [unfolded e] t3 show ?thesis
    by (simp only: simp_thms)
qed

text \<open>
  The claim as stated fails on both counts: the deletion of an absent file is not silent,
  it logs a warning; and a deletion that fails otherwise logs no warning and ends the
  export.
\<close>

theorem unlink_failure_warns_or_aborts:
  "\<not> isl (snd (export goneWorld None)) \<and>
   ConsoleWarn ''/site/build/old.html'' \<in> set (fst (export goneWorld None)) \<and>
   snd (export lockedWorld None) = Inl (StaleCleanup, EACCES) \<and>
   (\<forall>p. ConsoleWarn p \<notin> set (fst (export lockedWorld None)))"
proof -
  have "list_all (\<lambda>e. case e of ConsoleWarn p \<Rightarrow> False | _ \<Rightarrow> True) (fst (export lockedWorld None))"
    by code_simp
  then have "\<forall>p. ConsoleWarn p \<notin> set (fst (export lockedWorld None))"
    by (auto simp: list_all_iff)
  moreover have "\<not> isl (snd (export goneWorld None)) \<and>
   ConsoleWarn ''/site/build/old.html'' \<in> set (fst (export goneWorld None)) \<and>
   snd (export lockedWorld None) = Inl (StaleCleanup, EACCES)"
    by code_simp
  ultimately show ?thesis by simp
qed

section \<open>An export without routes\<close>





section \<open>An empty list of patterns\<close>

lemma report_later:
  "snd (report w result t) = Inl (ph, e) \<Longrightarrow> ph \<noteq> RouteCheck"
  by (cases "afterBuild (pod w) result") (auto simp: report_def)







lemma shaPaths_append: "shaPaths (a @ b) = shaPaths a \<union> shaPaths b"
  by (induction a rule: shaPaths.induct) auto

lemma shaPaths_iff: "p \<in> shaPaths es \<longleftrightarrow> (\<exists>h. ShaComputed p h \<in> set es)"
  by (induction es rule: shaPaths.induct) auto

lemma movedAfterHash_append:
  "movedAfterHash H (a @ b) \<longleftrightarrow> movedAfterHash H a \<and> movedAfterHash (H \<union> shaPaths a) b"
  by (induction H a rule: movedAfterHash.induct) simp_all

lemma movedAfterHash_mono: "movedAfterHash H es \<Longrightarrow> H \<subseteq> H' \<Longrightarrow> movedAfterHash H' es"
proof (induction H es arbitrary: H' rule: movedAfterHash.induct)
  case (2 H p h es)
  from 2(3) have "insert p H \<subseteq> insert p H'" by (rule insert_mono)
  with 2(1) [OF _ this] 2(2) show ?case by simp
next
  case (3 H p q es)
  then show ?case by auto
qed simp_all

lemma movedAfterHash_no_rename: "\<forall>e\<in>set es. \<not> isRename e \<Longrightarrow> movedAfterHash H es"
  by (induction H es rule: movedAfterHash.induct) simp_all

lemma ordered_replenish:
  "replenish limit q run tr = (q', run', tr') \<Longrightarrow> ordered q run tr \<Longrightarrow> ordered q' run' tr'"
proof (induction limit q run tr rule: replenish.induct)
  case (1 limit run tr)
  then show ?case by simp
next
  case (2 limit t q run tr)
  show ?case
  proof (cases "length run < limit")
    case False
    with 2 show ?thesis by simp
  next
    case True
    from 2(3) have tr: "movedAfterHash {} tr"
      and run: "\<forall>r\<in>set run. movedAfterHash (shaPaths tr) (concat (fst r))"
      and t: "movedAfterHash {} (start t)" "movedAfterHash (shaPaths (start t)) (concat (resumes t))"
      and q: "\<forall>t\<in>set q. movedAfterHash {} (taskEvents t)"
      by (simp_all add: ordered_def taskEvents_def movedAfterHash_append)
    have "movedAfterHash {} (tr @ start t)"
      using tr movedAfterHash_mono [OF t(1), of "shaPaths tr"]
      by (simp add: movedAfterHash_append)
    moreover have "movedAfterHash (shaPaths (tr @ start t)) (concat (resumes t))"
      using movedAfterHash_mono [OF t(2), of "shaPaths (tr @ start t)"]
      by (simp add: shaPaths_append)
    moreover have "\<forall>r\<in>set run. movedAfterHash (shaPaths (tr @ start t)) (concat (fst r))"
      using run by (auto simp: shaPaths_append intro: movedAfterHash_mono)
    ultimately have "ordered q (run @ [(resumes t, outcome t)]) (tr @ start t)"
      using q by (simp add: ordered_def)
    with 2(1) [OF True] 2(2) True show ?thesis
      by simp
  qed
qed

lemma ordered_replenishPool:
  assumes "ordered (queue p) (running p) (trace p)"
  shows "ordered (queue (replenishPool limit p)) (running (replenishPool limit p))
           (trace (replenishPool limit p))"
proof -
  obtain q run tr where r: "replenish limit (queue p) (running p) (trace p) = (q, run, tr)"
    by (cases "replenish limit (queue p) (running p) (trace p)")
  from ordered_replenish [OF r assms] r show ?thesis
    by (simp add: replenishPool_def)
qed

lemma ordered_advance:
  assumes o: "ordered (queue p) (running p) (trace p)" and i: "i < length (running p)"
  shows "ordered (queue (advance limit i p)) (running (advance limit i p)) (trace (advance limit i p))"
proof (cases "running p ! i")
  case (Pair segs out)
  from o have tr: "movedAfterHash {} (trace p)"
    and run: "\<forall>r\<in>set (running p). movedAfterHash (shaPaths (trace p)) (concat (fst r))"
    and q: "\<forall>t\<in>set (queue p). movedAfterHash {} (taskEvents t)"
    by (simp_all add: ordered_def)
  show ?thesis
  proof (cases segs)
    case (Cons seg rest)
    have a: "advance limit i p = p\<lparr>running := (running p)[i := (rest, out)], trace := trace p @ seg\<rparr>"
      using Pair Cons by (simp add: advance_def)
    from run i Pair Cons have this': "movedAfterHash (shaPaths (trace p)) (seg @ concat rest)"
      by (metis concat.simps(2) fst_conv nth_mem)
    then have s: "movedAfterHash (shaPaths (trace p)) seg"
      and r: "movedAfterHash (shaPaths (trace p @ seg)) (concat rest)"
      by (simp_all add: movedAfterHash_append shaPaths_append)
    have "movedAfterHash {} (trace p @ seg)"
      using tr s by (simp add: movedAfterHash_append)
    moreover have "\<forall>r\<in>set ((running p)[i := (rest, out)]).
        movedAfterHash (shaPaths (trace p @ seg)) (concat (fst r))"
    proof
      fix x assume "x \<in> set ((running p)[i := (rest, out)])"
      with set_update_subset_insert [of "running p" i "(rest, out)"]
      have "x = (rest, out) \<or> x \<in> set (running p)"
        by auto
      then show "movedAfterHash (shaPaths (trace p @ seg)) (concat (fst x))"
      proof
        assume "x = (rest, out)"
        with r show ?thesis by simp
      next
        assume "x \<in> set (running p)"
        with run have "movedAfterHash (shaPaths (trace p)) (concat (fst x))" by blast
        then show ?thesis
          by (rule movedAfterHash_mono) (simp add: shaPaths_append)
      qed
    qed
    ultimately show ?thesis
      unfolding a using q by (simp add: ordered_def)
  next
    case Nil
    let ?p = "p\<lparr>running := take i (running p) @ drop (Suc i) (running p)\<rparr>"
    have sub: "set (take i (running p) @ drop (Suc i) (running p)) \<subseteq> set (running p)"
      by (auto dest: in_set_takeD in_set_dropD)
    have o': "ordered (queue ?p) (running ?p) (trace ?p)"
      using tr run q sub by (auto simp: ordered_def)
    have o'': "ordered (queue (?p\<lparr>firstError := Some e\<rparr>)) (running (?p\<lparr>firstError := Some e\<rparr>))
                 (trace (?p\<lparr>firstError := Some e\<rparr>))" for e
      using o' by simp
    have "advance limit i p = ?p \<or> (\<exists>e. advance limit i p = ?p\<lparr>firstError := Some e\<rparr>) \<or>
          advance limit i p = replenishPool limit ?p"
      using Pair Nil by (auto simp: advance_def Let_def split: option.splits)
    with o' o'' ordered_replenishPool [OF o', of limit] show ?thesis
      by auto
  qed
qed

lemma ordered_runPool:
  assumes "ordered (queue p) (running p) (trace p)"
  shows "movedAfterHash {} (trace (runPool limit sched p))"
  using assms
proof (induction limit sched p rule: runPool.induct)
  case (1 limit sched p)
  show ?case
  proof (cases "running p = []")
    case True
    with 1(3) show ?thesis
      by (simp add: runPool_done ordered_def)
  next
    case False
    show ?thesis
    proof (cases sched)
      case Nil
      from False have "0 < length (running p)" by simp
      from 1(1) [OF False Nil ordered_advance [OF 1(3) this]] show ?thesis
        unfolding Nil runPool_Nil [OF False] .
    next
      case (Cons k ks)
      from False have "k mod length (running p) < length (running p)" by simp
      from 1(2) [OF False Cons ordered_advance [OF 1(3) this]] show ?thesis
        unfolding Cons runPool_Cons [OF False] .
    qed
  qed
qed

lemma ordered_runLimit:
  assumes "\<forall>t\<in>set tasks. movedAfterHash {} (taskEvents t)"
  shows "movedAfterHash {} (trace (runLimit limit sched tasks))"
proof -
  let ?p0 = "\<lparr>queue = tasks, running = [], firstError = None, trace = []\<rparr>"
  have "ordered (queue ?p0) (running ?p0) (trace ?p0)"
    using assms by (simp add: ordered_def)
  from ordered_runPool [OF ordered_replenishPool [OF this]] show ?thesis
    by (simp add: runLimit_def)
qed

lemma movingTask_ordered: "movedAfterHash {} (taskEvents (movingTask w b i cp))"
  by (simp add: movingTask_def taskEvents_def hashed_def counted_def moveTick_def
      split: option.splits sum.splits)

lemma movingRun_ordered: "movedAfterHash {} (trace (movingRun w b cps))"
  unfolding movingRun_def
  by (rule ordered_runLimit) (auto simp: tasksOf_nth movingTask_ordered)

lemma pruneDirectory_no_rename: "\<forall>e\<in>set (fst (pruneDirectory io d)). \<not> isRename e"
  by (simp add: pruneDirectory_def split: sum.splits)

lemma deleteOutputFile_no_rename: "\<forall>e\<in>set (fst (deleteOutputFile w io p)). \<not> isRename e"
  using pruneDirectory_no_rename [of io]
  by (simp add: deleteOutputFile_def Let_def split: option.splits)

lemma deleteOutputFiles_no_rename: "\<forall>e\<in>set (fst (deleteOutputFiles w n ps)). \<not> isRename e"
proof (induction ps arbitrary: n)
  case Nil
  show ?case by simp
next
  case (Cons p ps)
  obtain ev r where a: "deleteOutputFile w (deletion w n) p = (ev, r)"
    by (cases "deleteOutputFile w (deletion w n) p")
  obtain ev' r' where b: "deleteOutputFiles w (Suc n) ps = (ev', r')"
    by (cases "deleteOutputFiles w (Suc n) ps")
  from deleteOutputFile_no_rename [of w "deletion w n" p] a have "\<forall>e\<in>set ev. \<not> isRename e"
    by simp
  moreover from Cons [of "Suc n"] b have "\<forall>e\<in>set ev'. \<not> isRename e"
    by simp
  ultimately show ?case
    using a b by (cases r) auto
qed

lemma report_tail:
  "\<exists>t'. fst (report w result t) = t @ t' \<and> (\<forall>e\<in>set t'. \<not> isRename e)"
  by (cases "afterBuild (pod w) result") (simp_all add: report_def)

lemma cleanUp_tail:
  "\<exists>t'. fst (cleanUp w options m ms t) = t @ t' \<and> (\<forall>e\<in>set t'. \<not> isRename e)"
proof -
  let ?d = "cleanOutputUsingManifests (existingManifest (pod w)) m options"
  let ?r = "\<lparr>metrics = ms, manifest = m, diff = ?d\<rparr>"
  show ?thesis
  proof (cases "patternsGiven options")
    case True
    then have "cleanUp w options m ms t = report w ?r t"
      by (simp add: cleanUp_def Let_def)
    with report_tail [of w ?r t] show ?thesis by simp
  next
    case False
    obtain ev r where d: "deleteOutputFiles w 0 (deletes ?d) = (ev, r)"
      by (cases "deleteOutputFiles w 0 (deletes ?d)")
    from deleteOutputFiles_no_rename [of w 0 "deletes ?d"] d have ev: "\<forall>e\<in>set ev. \<not> isRename e"
      by simp
    show ?thesis
    proof (cases r)
      case None
      with False d have c: "cleanUp w options m ms t = report w ?r (t @ ev)"
        by (simp add: cleanUp_def Let_def)
      from report_tail [of w ?r "t @ ev"] obtain t'
        where "fst (report w ?r (t @ ev)) = (t @ ev) @ t'" "\<forall>e\<in>set t'. \<not> isRename e"
        by blast
      with ev c show ?thesis
        by (intro exI [of _ "ev @ t'"]) auto
    next
      case (Some e)
      with False d have "cleanUp w options m ms t = (t @ ev, Inl (StaleCleanup, e))"
        by (simp add: cleanUp_def Let_def)
      with ev show ?thesis by simp
    qed
  qed
qed

lemma persist_tail:
  "\<exists>t'. fst (persist w options b moved t) = t @ t' \<and> (\<forall>e\<in>set t'. \<not> isRename e)"
proof -
  have r: "\<forall>e\<in>set (tempRemoval w b). \<not> isRename e"
    by (cases b) (simp_all add: tempRemoval_def)
  have p: "\<forall>e\<in>set (persistWrites w moved). \<not> isRename e"
    by (simp add: persistWrites_def)
  show ?thesis
  proof (cases "tempDirRemoval w")
    case (Some e)
    from persist_removal_failed [OF Some] r show ?thesis by simp
  next
    case None
    show ?thesis
    proof (cases "manifestWritten w = None \<and> metricsWritten w = None")
      case True
      from cleanUp_tail [of w options "newManifest w moved" "finalMetrics w moved"
          "t @ tempRemoval w b @ persistWrites w moved"]
      obtain t' where "fst (cleanUp w options (newManifest w moved) (finalMetrics w moved)
          (t @ tempRemoval w b @ persistWrites w moved)) = (t @ tempRemoval w b @ persistWrites w moved) @ t'"
        "\<forall>e\<in>set t'. \<not> isRename e"
        by blast
      with True persist_cleaned [OF None, of options b moved t] r p show ?thesis
        by (intro exI [of _ "tempRemoval w b @ persistWrites w moved @ t'"]) auto
    next
      case False
      then obtain e where "manifestWritten w = Some e \<or> (manifestWritten w = None \<and> metricsWritten w = Some e)"
        by (cases "manifestWritten w") auto
      from persist_write_failed [OF None this, of options b moved t] r p show ?thesis
        by (intro exI [of _ "tempRemoval w b @ persistWrites w moved"]) auto
    qed
  qed
qed

lemma promote_ordered:
  assumes "movedAfterHash {} t"
  shows "movedAfterHash {} (fst (promote w options cps staged t))"
proof -
  let ?p = "movingRun w (showsMoveBar staged) cps"
  let ?t = "t @ moveBarStart staged @ trace ?p"
  have "movedAfterHash (shaPaths t) (moveBarStart staged)"
    by (cases "showsMoveBar staged") (simp_all add: moveBarStart_def)
  moreover have "movedAfterHash (shaPaths t \<union> shaPaths (moveBarStart staged)) (trace ?p)"
    using movingRun_ordered by (rule movedAfterHash_mono) simp
  ultimately have t: "movedAfterHash {} ?t"
    using assms by (simp add: movedAfterHash_append)
  show ?thesis
  proof (cases "firstError ?p")
    case (Some e)
    from t show ?thesis
      unfolding promote_failed [OF Some] by simp
  next
    case None
    from persist_tail [of w options "showsMoveBar staged" "trace ?p" ?t]
    obtain t' where t': "fst (persist w options (showsMoveBar staged) (trace ?p) ?t) = ?t @ t'"
      "\<forall>e\<in>set t'. \<not> isRename e"
      by blast
    have "movedAfterHash {} (?t @ t')"
      using t movedAfterHash_no_rename [OF t'(2)]
      by (subst movedAfterHash_append) simp
    then show ?thesis
      unfolding promote_persisted [OF None] t'(1) .
  qed
qed

lemma no_promotion_no_rename: "\<not> isPromotion e \<Longrightarrow> \<not> isRename e"
  by (cases e) simp_all

lemma stage_ordered:
  assumes "movedAfterHash {} t"
  shows "movedAfterHash {} (fst (stage w options cps t))"
proof -
  let ?p = "stagingRun w cps"
  have "\<forall>e\<in>set (trace ?p). \<not> isRename e"
    using staging_run_events(3) no_promotion_no_rename by blast
  then have "movedAfterHash (shaPaths t) (trace ?p)"
    by (rule movedAfterHash_no_rename)
  with assms have t: "movedAfterHash {} (t @ trace ?p)"
    by (simp add: movedAfterHash_append)
  show ?thesis
  proof (cases "firstError ?p")
    case (Some e)
    from t show ?thesis
      unfolding stage_failed [OF Some] by simp
  next
    case None
    from t show ?thesis
      unfolding stage_promoted [OF None] by (rule promote_ordered)
  qed
qed

lemma export_ordered: "movedAfterHash {} (fst (export w options))"
proof (cases "beforeBuild (pod w)")
  case (Some e)
  show ?thesis
    unfolding export_hook_failed [OF Some] by simp
next
  case None
  have p: "movedAfterHash {} (preparation w options)"
    by (simp add: preparation_def)
  show ?thesis
  proof (cases "selectedRoutes w options = []")
    case True
    show ?thesis
      unfolding export_nothing [OF None True] using p by simp
  next
    case False
    show ?thesis
      unfolding export_staged [OF None False] using p by (rule stage_ordered)
  qed
qed

text \<open>
  C5 (amended). Hashing and moving are one pass: each call of the second runner hashes
  its file, reads its size and then moves it, and up to 2000 such calls are in flight. So
  whenever a staged file is renamed to its final location, the hash of that file has been
  computed before; the hashes of the other files may still be outstanding.
\<close>

theorem file_moved_after_its_own_hash:
  assumes "fst (export w options) = a @ Rename p q # b"
  shows "\<exists>h. ShaComputed p h \<in> set a"
proof -
  from export_ordered [of w options] assms have "movedAfterHash {} (a @ Rename p q # b)"
    by simp
  then have "p \<in> shaPaths a"
    by (simp add: movedAfterHash_append)
  then show ?thesis
    by (simp add: shaPaths_iff)
qed

theorem file_moved_after_its_own_hash_witness:
  "fst (export exampleWorld None) =
     take 28 (fst (export exampleWorld None)) @
     Rename ''/tmp/amagaki-build-x/build/a/index.html'' ''/site/build/a/index.html'' #
     drop 29 (fst (export exampleWorld None)) \<and>
   (\<exists>h. ShaComputed ''/tmp/amagaki-build-x/build/a/index.html'' h
          \<in> set (take 28 (fst (export exampleWorld None))))"
proof -
  have a: "fst (export exampleWorld None) =
     take 28 (fst (export exampleWorld None)) @
     Rename ''/tmp/amagaki-build-x/build/a/index.html'' ''/site/build/a/index.html'' #
     drop 29 (fst (export exampleWorld None))"
    by code_simp
  from file_moved_after_its_own_hash [OF a] a show ?thesis
    by (simp only: simp_thms)
qed

text \<open>
  The claim as stated fails: with two staged files, the first is renamed to its final
  location while the hash of the second has not been computed yet.
\<close>

theorem moved_before_all_hashed:
  "map tempPath (createdPaths exampleWorld None) =
     [''/tmp/amagaki-build-x/build/a/index.html'', ''/tmp/amagaki-build-x/build/m.css''] \<and>
   fst (export exampleWorld None) ! 28 =
     Rename ''/tmp/amagaki-build-x/build/a/index.html'' ''/site/build/a/index.html'' \<and>
   fst (export exampleWorld None) ! 29 = ShaComputed ''/tmp/amagaki-build-x/build/m.css'' ''a2'' \<and>
   (\<forall>h. ShaComputed ''/tmp/amagaki-build-x/build/m.css'' h
          \<notin> set (take 28 (fst (export exampleWorld None))))"
proof -
  have "list_all (\<lambda>e. case e of ShaComputed p h \<Rightarrow> p \<noteq> ''/tmp/amagaki-build-x/build/m.css'' | _ \<Rightarrow> True)
          (take 28 (fst (export exampleWorld None)))"
    by code_simp
  then have "\<forall>h. ShaComputed ''/tmp/amagaki-build-x/build/m.css'' h
          \<notin> set (take 28 (fst (export exampleWorld None)))"
    by (auto simp: list_all_iff)
  moreover have "map tempPath (createdPaths exampleWorld None) =
     [''/tmp/amagaki-build-x/build/a/index.html'', ''/tmp/amagaki-build-x/build/m.css''] \<and>
   fst (export exampleWorld None) ! 28 =
     Rename ''/tmp/amagaki-build-x/build/a/index.html'' ''/site/build/a/index.html'' \<and>
   fst (export exampleWorld None) ! 29 = ShaComputed ''/tmp/amagaki-build-x/build/m.css'' ''a2''"
    by code_simp
  ultimately show ?thesis by simp
qed




















end
